theory Spec2Isabelle
  imports Main "HOL-Library.Sublist" "HOL-Library.Multiset"
begin

section \<open>Data model\<close>

text \<open>
  Object ids of the document store. An id handed to a query as a string and the
  ObjectId it is cast to are the same value here.
\<close>

type_synonym oid = nat

text \<open>
  The Thread schema: \<open>text\<close> (required), \<open>author\<close> (required reference to a User),
  \<open>community\<close> (optional reference), \<open>createdAt\<close> (defaults to the time of creation),
  \<open>parentId\<close> (optional; the id of the thread this one replies to) and \<open>children\<close>
  (the references to the replies). Fields carry the prefix \<open>t_\<close>; \<open>t_id\<close> is \<open>_id\<close>.
\<close>

record thread =
  t_id :: oid
  t_text :: string
  t_author :: oid
  t_community :: "oid option"
  t_createdAt :: nat
  t_parentId :: "oid option"
  t_children :: "oid list"

text \<open>
  Modelled from the spec: the User and Community models are imported by the actions
  but their schemas are not among the sources. Both hold \<open>threads\<close>, the back-reference
  list of thread ids; the field selections of the actions name \<open>_id\<close>, \<open>id\<close>,
  \<open>name\<close> and \<open>image\<close>. \<open>u_id\<close> and \<open>c_id\<close> are \<open>_id\<close>, \<open>u_uid\<close> and \<open>c_cid\<close> are the
  external identifier \<open>id\<close>.
\<close>

record user =
  u_id :: oid
  u_uid :: string
  u_name :: string
  u_image :: string
  u_threads :: "oid list"

record community =
  c_id :: oid
  c_cid :: string
  c_name :: string
  c_image :: string
  c_threads :: "oid list"

text \<open>A JavaScript \<open>Error\<close> with its message.\<close>

datatype exn = Error (message: string)

text \<open>
  The world the actions run against: the three collections in their natural order, the
  next ObjectId the driver hands out, the clock read by \<open>Date.now\<close>, the outcomes of
  the coming round trips to the store (\<open>Some m\<close>: the round trip fails with message
  \<open>m\<close>; \<open>None\<close>, or no entry left: it goes through), and what \<open>console.error\<close> has
  printed.
\<close>

record world =
  threads :: "thread list"
  users :: "user list"
  communities :: "community list"
  nextOid :: oid
  clock :: nat
  faults :: "string option list"
  console :: "(string \<times> exn) list"

type_synonym 'a io = "world \<Rightarrow> (exn + 'a) \<times> world"

section \<open>The driver\<close>

text \<open>
  One awaited round trip to the store. It takes the next scheduled outcome; a failing
  round trip throws and leaves the collections as they are.
\<close>

definition await :: "'a io \<Rightarrow> 'a io" where
  "await operation w =
     (case faults w of
        [] \<Rightarrow> operation w
      | None # fs \<Rightarrow> operation (w\<lparr>faults := fs\<rparr>)
      | Some m # fs \<Rightarrow> (Inl (Error m), w\<lparr>faults := fs\<rparr>))"

definition query :: "(world \<Rightarrow> 'a) \<Rightarrow> 'a io" where
  "query f w = (Inr (f w), w)"

definition command :: "(world \<Rightarrow> world) \<Rightarrow> unit io" where
  "command g w = (Inr (), g w)"

text \<open>Returning and throwing; one statement after another; \<open>try\<close> and \<open>catch\<close>.\<close>

definition return :: "'a \<Rightarrow> 'a io" where
  "return x w = (Inr x, w)"

definition throw :: "exn \<Rightarrow> 'a io" where
  "throw e w = (Inl e, w)"

definition andThen :: "'a io \<Rightarrow> ('a \<Rightarrow> 'b io) \<Rightarrow> 'b io" where
  "andThen m k w = (case m w of (Inl e, w1) \<Rightarrow> (Inl e, w1) | (Inr x, w1) \<Rightarrow> k x w1)"

definition tryCatch :: "'a io \<Rightarrow> (exn \<Rightarrow> 'a io) \<Rightarrow> 'a io" where
  "tryCatch body handler w =
     (case body w of (Inl e, w1) \<Rightarrow> handler e w1 | (Inr x, w1) \<Rightarrow> (Inr x, w1))"

definition console_error :: "string \<Rightarrow> exn \<Rightarrow> unit io" where
  "console_error label err w = (Inr (), w\<lparr>console := console w @ [(label, err)]\<rparr>)"

text \<open>
  The same for a computation that may not return (\<open>None\<close>): \<open>fetchAllChildThreads\<close> and
  its caller.
\<close>

type_synonym 'a pio = "world \<Rightarrow> ((exn + 'a) \<times> world) option"

definition total :: "'a io \<Rightarrow> 'a pio" where
  "total m w = Some (m w)"

definition andThenP :: "'a pio \<Rightarrow> ('a \<Rightarrow> 'b pio) \<Rightarrow> 'b pio" where
  "andThenP m k w =
     (case m w of
        None \<Rightarrow> None
      | Some (Inl e, w1) \<Rightarrow> Some (Inl e, w1)
      | Some (Inr x, w1) \<Rightarrow> k x w1)"

definition tryCatchP :: "'a pio \<Rightarrow> (exn \<Rightarrow> 'a io) \<Rightarrow> 'a pio" where
  "tryCatchP body handler w =
     (case body w of
        None \<Rightarrow> None
      | Some (Inl e, w1) \<Rightarrow> Some (handler e w1)
      | Some (Inr x, w1) \<Rightarrow> Some (Inr x, w1))"

subsection \<open>Queries\<close>

definition Thread_findById :: "oid \<Rightarrow> world \<Rightarrow> thread option" where
  "Thread_findById i w = find (\<lambda>t. t_id t = i) (threads w)"

definition User_findById :: "oid \<Rightarrow> world \<Rightarrow> user option" where
  "User_findById i w = find (\<lambda>u. u_id u = i) (users w)"

definition Community_findById :: "oid \<Rightarrow> world \<Rightarrow> community option" where
  "Community_findById i w = find (\<lambda>c. c_id c = i) (communities w)"

text \<open>\<open>Thread.find({ parentId: threadId })\<close>.\<close>

definition Thread_find_parentId :: "oid \<Rightarrow> world \<Rightarrow> thread list" where
  "Thread_find_parentId threadId w = filter (\<lambda>t. t_parentId t = Some threadId) (threads w)"

text \<open>The filter \<open>{ parentId: { $in: [null, undefined] } }\<close>: the top-level threads.\<close>

definition topLevel :: "world \<Rightarrow> thread list" where
  "topLevel w = filter (\<lambda>t. t_parentId t = None) (threads w)"

definition Thread_countDocuments_topLevel :: "world \<Rightarrow> int" where
  "Thread_countDocuments_topLevel w = int (length (topLevel w))"

text \<open>
  \<open>Community.findOne({ id: communityId }, { _id: 1 })\<close>. A \<open>null\<close> identifier matches the
  documents without an \<open>id\<close>; every community has one, so it matches none.
\<close>

definition Community_findOne_id :: "string option \<Rightarrow> world \<Rightarrow> oid option" where
  "Community_findOne_id communityId w =
     (case communityId of
        None \<Rightarrow> None
      | Some cid \<Rightarrow> map_option c_id (find (\<lambda>c. c_cid c = cid) (communities w)))"

subsection \<open>Commands\<close>

text \<open>\<open>Thread.deleteMany({ _id: { $in: ids } })\<close>.\<close>

definition Thread_deleteMany :: "oid list \<Rightarrow> world \<Rightarrow> world" where
  "Thread_deleteMany ids w = w\<lparr>threads := filter (\<lambda>t. t_id t \<notin> set ids) (threads w)\<rparr>"

text \<open>\<open>$pull: { threads: { $in: ids } }\<close> on one list.\<close>

definition pull :: "oid list \<Rightarrow> oid list \<Rightarrow> oid list" where
  "pull ids xs = filter (\<lambda>x. x \<notin> set ids) xs"

text \<open>\<open>User.updateMany({ _id: { $in: who } }, { $pull: { threads: { $in: ids } } })\<close>.\<close>

definition User_updateMany_pull :: "oid list \<Rightarrow> oid list \<Rightarrow> world \<Rightarrow> world" where
  "User_updateMany_pull who ids w =
     w\<lparr>users := map (\<lambda>u. if u_id u \<in> set who then u\<lparr>u_threads := pull ids (u_threads u)\<rparr> else u)
                    (users w)\<rparr>"

definition Community_updateMany_pull :: "oid list \<Rightarrow> oid list \<Rightarrow> world \<Rightarrow> world" where
  "Community_updateMany_pull who ids w =
     w\<lparr>communities :=
          map (\<lambda>c. if c_id c \<in> set who then c\<lparr>c_threads := pull ids (c_threads c)\<rparr> else c)
              (communities w)\<rparr>"

text \<open>\<open>User.findByIdAndUpdate(author, { $push: { threads: i } })\<close>; no such user: nothing happens.\<close>

definition User_findByIdAndUpdate_push :: "oid \<Rightarrow> oid \<Rightarrow> world \<Rightarrow> world" where
  "User_findByIdAndUpdate_push who i w =
     w\<lparr>users := map (\<lambda>u. if u_id u = who then u\<lparr>u_threads := u_threads u @ [i]\<rparr> else u)
                    (users w)\<rparr>"

definition Community_findByIdAndUpdate_push :: "oid \<Rightarrow> oid \<Rightarrow> world \<Rightarrow> world" where
  "Community_findByIdAndUpdate_push who i w =
     w\<lparr>communities :=
          map (\<lambda>c. if c_id c = who then c\<lparr>c_threads := c_threads c @ [i]\<rparr> else c)
              (communities w)\<rparr>"

text \<open>
  Saving a new Thread document (\<open>Thread.create\<close>, and \<open>save\<close> on a \<open>new Thread\<close>). The
  schema validates first: \<open>text\<close> is required, and the empty string does not count as
  given. The driver then assigns the next ObjectId, \<open>createdAt\<close> defaults to the clock
  and \<open>children\<close> to the empty array. The unique index on \<open>_id\<close> refuses an id that is
  taken.
\<close>

definition Thread_save_new :: "string \<Rightarrow> oid \<Rightarrow> oid option \<Rightarrow> oid option \<Rightarrow> thread io" where
  "Thread_save_new txt auth comm parent w =
     (if txt = [] then
        (Inl (Error ''Thread validation failed: text: Path `text` is required.''),
         w\<lparr>nextOid := Suc (nextOid w)\<rparr>)
      else if nextOid w \<in> t_id ` set (threads w) then
        (Inl (Error ''E11000 duplicate key error''), w\<lparr>nextOid := Suc (nextOid w)\<rparr>)
      else
        (let doc = \<lparr>t_id = nextOid w, t_text = txt, t_author = auth, t_community = comm,
                     t_createdAt = clock w, t_parentId = parent, t_children = []\<rparr>
         in (Inr doc, w\<lparr>threads := threads w @ [doc], nextOid := Suc (nextOid w)\<rparr>)))"

text \<open>
  \<open>save\<close> on a loaded Thread whose \<open>children\<close> array got one more id pushed: the stored
  document with that \<open>_id\<close> gets the id appended.
\<close>

definition Thread_save_children_push :: "oid \<Rightarrow> oid \<Rightarrow> world \<Rightarrow> world" where
  "Thread_save_children_push i child w =
     w\<lparr>threads := map (\<lambda>t. if t_id t = i then t\<lparr>t_children := t_children t @ [child]\<rparr> else t)
                      (threads w)\<rparr>"

section \<open>Populated documents\<close>

text \<open>
  A reference field of a loaded document: the raw id, the document that \<open>populate\<close> put
  in its place, or \<open>null\<close> (an optional reference that is not set, or a populated
  reference whose target does not exist).
\<close>

datatype 'a ref = Raw oid | Populated 'a | Null

text \<open>A User or Community as \<open>populate\<close> embeds it: \<open>_id\<close> and the selected fields.\<close>

record user_view =
  uv_id :: oid
  uv_uid :: "string option"
  uv_name :: "string option"
  uv_image :: "string option"
  uv_threads :: "oid list option"

record community_view =
  cv_id :: oid
  cv_cid :: "string option"
  cv_name :: "string option"
  cv_image :: "string option"
  cv_threads :: "oid list option"

text \<open>A Thread as a query returns it: the reference fields may be populated.\<close>

datatype pthread =
  PThread (p_id: oid) (p_text: string) (p_author: "user_view ref")
    (p_community: "community_view ref") (p_createdAt: nat) (p_parentId: "oid option")
    (p_children: "pthread ref list")

text \<open>The document as stored, nothing populated.\<close>

definition hydrate :: "thread \<Rightarrow> pthread" where
  "hydrate t =
     PThread (t_id t) (t_text t) (Raw (t_author t))
       (case t_community t of None \<Rightarrow> Null | Some c \<Rightarrow> Raw c)
       (t_createdAt t) (t_parentId t) (map Raw (t_children t))"

fun onAuthor :: "(user_view ref \<Rightarrow> user_view ref) \<Rightarrow> pthread \<Rightarrow> pthread" where
  "onAuthor f (PThread i tx a c ca pa ch) = PThread i tx (f a) c ca pa ch"

fun onCommunity :: "(community_view ref \<Rightarrow> community_view ref) \<Rightarrow> pthread \<Rightarrow> pthread" where
  "onCommunity f (PThread i tx a c ca pa ch) = PThread i tx a (f c) ca pa ch"

fun onChildren :: "(pthread ref list \<Rightarrow> pthread ref list) \<Rightarrow> pthread \<Rightarrow> pthread" where
  "onChildren f (PThread i tx a c ca pa ch) = PThread i tx a c ca pa (f ch)"

text \<open>Field selections. No \<open>select\<close>: every field.\<close>

definition user_all :: "user \<Rightarrow> user_view" where
  "user_all u = \<lparr>uv_id = u_id u, uv_uid = Some (u_uid u), uv_name = Some (u_name u),
                 uv_image = Some (u_image u), uv_threads = Some (u_threads u)\<rparr>"

definition community_all :: "community \<Rightarrow> community_view" where
  "community_all c = \<lparr>cv_id = c_id c, cv_cid = Some (c_cid c), cv_name = Some (c_name c),
                      cv_image = Some (c_image c), cv_threads = Some (c_threads c)\<rparr>"

text \<open>\<open>select: "_id id name image"\<close>, and the same with \<open>parentId\<close>, which no User has.\<close>

definition user_id_name_image :: "user \<Rightarrow> user_view" where
  "user_id_name_image u = \<lparr>uv_id = u_id u, uv_uid = Some (u_uid u), uv_name = Some (u_name u),
                           uv_image = Some (u_image u), uv_threads = None\<rparr>"

definition community_id_name_image :: "community \<Rightarrow> community_view" where
  "community_id_name_image c =
     \<lparr>cv_id = c_id c, cv_cid = Some (c_cid c), cv_name = Some (c_name c),
      cv_image = Some (c_image c), cv_threads = None\<rparr>"

text \<open>\<open>select: "_id name parentId image"\<close>.\<close>

definition user_name_image :: "user \<Rightarrow> user_view" where
  "user_name_image u = \<lparr>uv_id = u_id u, uv_uid = None, uv_name = Some (u_name u),
                        uv_image = Some (u_image u), uv_threads = None\<rparr>"

text \<open>Populating a single reference: a target that does not exist gives \<open>null\<close>.\<close>

definition populateUser :: "(user \<Rightarrow> user_view) \<Rightarrow> world \<Rightarrow> user_view ref \<Rightarrow> user_view ref" where
  "populateUser sel w r =
     (case r of
        Raw i \<Rightarrow> (case User_findById i w of None \<Rightarrow> Null | Some u \<Rightarrow> Populated (sel u))
      | Populated v \<Rightarrow> Populated v
      | Null \<Rightarrow> Null)"

definition populateCommunity ::
  "(community \<Rightarrow> community_view) \<Rightarrow> world \<Rightarrow> community_view ref \<Rightarrow> community_view ref" where
  "populateCommunity sel w r =
     (case r of
        Raw i \<Rightarrow> (case Community_findById i w of None \<Rightarrow> Null | Some c \<Rightarrow> Populated (sel c))
      | Populated v \<Rightarrow> Populated v
      | Null \<Rightarrow> Null)"

text \<open>
  Populating an array of references: every id is replaced by its document, on which
  the nested \<open>populate\<close> options run; an id without a document is dropped from the array.
\<close>

definition populateChildren ::
  "(pthread \<Rightarrow> pthread) \<Rightarrow> world \<Rightarrow> pthread ref list \<Rightarrow> pthread ref list" where
  "populateChildren nested w rs =
     List.map_filter
       (\<lambda>r. case r of
               Raw i \<Rightarrow> (case Thread_findById i w of
                            None \<Rightarrow> None
                          | Some t \<Rightarrow> Some (Populated (nested (hydrate t))))
             | Populated d \<Rightarrow> Some (Populated d)
             | Null \<Rightarrow> None)
       rs"

section \<open>The actions\<close>

subsection \<open>fetchPosts\<close>

text \<open>\<open>sort({ createdAt: "desc" })\<close>; documents of equal date keep their natural order.\<close>

fun insertDesc :: "thread \<Rightarrow> thread list \<Rightarrow> thread list" where
  "insertDesc x [] = [x]"
| "insertDesc x (y # ys) =
     (if t_createdAt x < t_createdAt y then y # insertDesc x ys else x # y # ys)"

fun sortDesc :: "thread list \<Rightarrow> thread list" where
  "sortDesc [] = []"
| "sortDesc (x # xs) = insertDesc x (sortDesc xs)"

text \<open>\<open>limit(n)\<close>: zero is no limit, a negative limit counts as its absolute value.\<close>

definition limitDocs :: "int \<Rightarrow> 'a list \<Rightarrow> 'a list" where
  "limitDocs n xs = (if n = 0 then xs else take (nat \<bar>n\<bar>) xs)"

text \<open>
  The query built by \<open>fetchPosts\<close>, as \<open>exec\<close> runs it: the top-level threads, newest
  first, skipped and limited, with \<open>author\<close>, \<open>community\<close> and one level of \<open>children\<close>
  (and the children's authors) populated. The store refuses a negative \<open>skip\<close>.
\<close>

definition postsQuery :: "int \<Rightarrow> int \<Rightarrow> pthread list io" where
  "postsQuery skipAmount pageSize w =
     (if skipAmount < 0 then (Inl (Error ''Skip value must be non-negative''), w)
      else
        (Inr (map (\<lambda>t. onChildren (populateChildren (onAuthor (populateUser user_name_image w)) w)
                        (onCommunity (populateCommunity community_all w)
                          (onAuthor (populateUser user_all w) (hydrate t))))
                  (limitDocs pageSize (drop (nat skipAmount) (sortDesc (topLevel w))))),
         w))"

text \<open>
  \<open>fetchPosts(pageNumber = 1, pageSize = 20)\<close>. There is no \<open>try\<close> around the two round
  trips: a failure leaves the function as it is.
\<close>

definition fetchPosts :: "int \<Rightarrow> int \<Rightarrow> (pthread list \<times> bool) io" where
  "fetchPosts pageNumber pageSize =
     (let skipAmount = (pageNumber - 1) * pageSize in
      andThen (await (query Thread_countDocuments_topLevel)) (\<lambda>totalPostsCount.
      andThen (await (postsQuery skipAmount pageSize)) (\<lambda>posts.
      let isNext = totalPostsCount > skipAmount + int (length posts)
      in return (posts, isNext))))"

subsection \<open>createThread\<close>

record Params =
  pr_text :: string
  pr_author :: oid
  pr_communityId :: "string option"
  pr_path :: string

text \<open>\<open>revalidatePath\<close> belongs to the web framework and does nothing to the store.\<close>

definition createThread :: "Params \<Rightarrow> unit io" where
  "createThread p =
     tryCatch
       (andThen (await (query (Community_findOne_id (pr_communityId p)))) (\<lambda>communityIdObject.
        andThen (await (Thread_save_new (pr_text p) (pr_author p) communityIdObject None))
          (\<lambda>createdThread.
        andThen (await (command (User_findByIdAndUpdate_push (pr_author p) (t_id createdThread))))
          (\<lambda>_.
        case communityIdObject of
          None \<Rightarrow> return ()
        | Some cid \<Rightarrow>
            await (command (Community_findByIdAndUpdate_push cid (t_id createdThread)))))))
       (\<lambda>error. throw (Error (''Failed to create post: '' @ message error)))"

subsection \<open>deleteThread\<close>

text \<open>
  The \<open>for\<close> loop of \<open>fetchAllChildThreads\<close>: \<open>body\<close> is run on every element in turn
  and threads the accumulated array; a throw ends the loop.
\<close>

fun forEach :: "('a \<Rightarrow> 'b \<Rightarrow> 'b pio) \<Rightarrow> 'a list \<Rightarrow> 'b \<Rightarrow> 'b pio" where
  "forEach body [] acc w = total (return acc) w"
| "forEach body (x # xs) acc w = andThenP (body x acc) (\<lambda>acc1. forEach body xs acc1) w"

text \<open>
  \<open>fetchAllChildThreads\<close> calls itself on every thread it finds, with nothing that
  bounds the depth. The first argument bounds the depth of the calls; \<open>None\<close> says the
  bound was reached, that is, the call has not returned within it.
\<close>

fun fetchAllChildThreads :: "nat \<Rightarrow> oid \<Rightarrow> thread list pio" where
  "fetchAllChildThreads 0 threadId w = None"
| "fetchAllChildThreads (Suc depth) threadId w =
     andThenP (total (await (query (Thread_find_parentId threadId)))) (\<lambda>childThreads.
       forEach
         (\<lambda>childThread descendantThreads.
            andThenP (fetchAllChildThreads depth (t_id childThread)) (\<lambda>descendants.
            total (return (descendantThreads @ childThread # descendants))))
         childThreads []) w"

text \<open>\<open>new Set(xs)\<close> and \<open>Array.from\<close>: the first occurrences, in order.\<close>

fun newSet :: "'a list \<Rightarrow> 'a list" where
  "newSet [] = []"
| "newSet (x # xs) = x # filter (\<lambda>y. y \<noteq> x) (newSet xs)"

text \<open>
  \<open>r?._id?.toString()\<close> on a reference field: a raw ObjectId is its own \<open>_id\<close>, a
  populated document has one, \<open>null\<close> gives \<open>undefined\<close>.
\<close>

definition refId :: "('a \<Rightarrow> oid) \<Rightarrow> 'a ref \<Rightarrow> oid option" where
  "refId idOf r = (case r of Raw i \<Rightarrow> Some i | Populated d \<Rightarrow> Some (idOf d) | Null \<Rightarrow> None)"

text \<open>\<open>.filter((id) => id !== undefined)\<close>.\<close>

definition defined :: "'a option list \<Rightarrow> 'a list" where
  "defined xs = List.map_filter (\<lambda>x. x) xs"

text \<open>\<open>Thread.findById(id).populate("author community")\<close>.\<close>

definition Thread_findById_populate_author_community :: "oid \<Rightarrow> world \<Rightarrow> pthread option" where
  "Thread_findById_populate_author_community i w =
     map_option
       (\<lambda>t. onCommunity (populateCommunity community_all w)
              (onAuthor (populateUser user_all w) (hydrate t)))
       (Thread_findById i w)"

definition deleteThread :: "nat \<Rightarrow> oid \<Rightarrow> string \<Rightarrow> unit pio" where
  "deleteThread depth id' path =
     tryCatchP
       (andThenP (total (await (query (Thread_findById_populate_author_community id'))))
          (\<lambda>found.
        case found of
          None \<Rightarrow> total (throw (Error ''Thread not found''))
        | Some mainThread \<Rightarrow>
            andThenP (fetchAllChildThreads depth id') (\<lambda>descendantThreads.
            let descendantThreadIds = id' # map t_id descendantThreads;
                uniqueAuthorIds =
                  newSet (defined (map (\<lambda>thread. Some (t_author thread)) descendantThreads
                                   @ [refId uv_id (p_author mainThread)]));
                uniqueCommunityIds =
                  newSet (defined (map (\<lambda>thread. t_community thread) descendantThreads
                                   @ [refId cv_id (p_community mainThread)]))
            in total
                 (andThen (await (command (Thread_deleteMany descendantThreadIds))) (\<lambda>_.
                  andThen (await (command (User_updateMany_pull uniqueAuthorIds
                                             descendantThreadIds))) (\<lambda>_.
                  await (command (Community_updateMany_pull uniqueCommunityIds
                                    descendantThreadIds))))))))
       (\<lambda>error. throw (Error (''Failed to delete thread: '' @ message error)))"

subsection \<open>fetchThreadById\<close>

text \<open>
  The query of \<open>fetchThreadById\<close>: \<open>author\<close> and \<open>community\<close> with their selections,
  \<open>children\<close> with, in each child, its \<open>author\<close> and its own \<open>children\<close>, and in each of
  those their \<open>author\<close>. \<open>findById\<close> gives \<open>null\<close> for an id that is not there.
\<close>

definition threadQuery :: "oid \<Rightarrow> world \<Rightarrow> pthread option" where
  "threadQuery threadId w =
     map_option
       (\<lambda>t. onChildren
              (populateChildren
                 (\<lambda>child. onChildren
                            (populateChildren (onAuthor (populateUser user_id_name_image w)) w)
                            (onAuthor (populateUser user_id_name_image w) child))
                 w)
              (onCommunity (populateCommunity community_id_name_image w)
                (onAuthor (populateUser user_id_name_image w) (hydrate t))))
       (Thread_findById threadId w)"

definition fetchThreadById :: "oid \<Rightarrow> pthread option io" where
  "fetchThreadById threadId =
     tryCatch
       (andThen (await (query (threadQuery threadId))) (\<lambda>thread. return thread))
       (\<lambda>err. andThen (console_error ''Error while fetching thread:'' err) (\<lambda>_.
              throw (Error ''Unable to fetch thread'')))"

subsection \<open>addCommentToThread\<close>

definition addCommentToThread :: "oid \<Rightarrow> string \<Rightarrow> oid \<Rightarrow> string \<Rightarrow> unit io" where
  "addCommentToThread threadId commentText userId path =
     tryCatch
       (andThen (await (query (Thread_findById threadId))) (\<lambda>found.
        case found of
          None \<Rightarrow> throw (Error ''Thread not found'')
        | Some originalThread \<Rightarrow>
            andThen (await (Thread_save_new commentText userId None (Some threadId)))
              (\<lambda>savedCommentThread.
            await (command (Thread_save_children_push (t_id originalThread)
                              (t_id savedCommentThread))))))
       (\<lambda>err. andThen (console_error ''Error while adding comment:'' err) (\<lambda>_.
              throw (Error ''Unable to add comment'')))"

section \<open>The reply tree\<close>

text \<open>
  What the statements below are phrased in. \<open>childrenOf ts x\<close> are the threads that name
  \<open>x\<close> as their parent; \<open>childRel ts\<close> relates the id of a parent to the id of each
  of its replies, so that its transitive closure relates a thread to its transitive
  descendants; the replies form a forest when it has no cycle.
\<close>

definition childrenOf :: "thread list \<Rightarrow> oid \<Rightarrow> thread list" where
  "childrenOf ts x = filter (\<lambda>t. t_parentId t = Some x) ts"

definition childRel :: "thread list \<Rightarrow> (oid \<times> oid) set" where
  "childRel ts = {(p, c). \<exists>t \<in> set ts. t_id t = c \<and> t_parentId t = Some p}"

definition descendantIds :: "thread list \<Rightarrow> oid \<Rightarrow> oid set" where
  "descendantIds ts x = {c. (x, c) \<in> (childRel ts)\<^sup>+}"

text \<open>
  The traversal of \<open>fetchAllChildThreads\<close> on a fixed collection, without the round
  trips: every child, followed by what the traversal gives for it.
\<close>

fun collect :: "('a \<Rightarrow> 'a list option) \<Rightarrow> 'a list \<Rightarrow> 'a list option" where
  "collect f [] = Some []"
| "collect f (c # cs) =
     (case f c of
        None \<Rightarrow> None
      | Some ds \<Rightarrow> (case collect f cs of None \<Rightarrow> None | Some r \<Rightarrow> Some (c # ds @ r)))"

fun descendants :: "nat \<Rightarrow> thread list \<Rightarrow> oid \<Rightarrow> thread list option" where
  "descendants 0 ts x = None"
| "descendants (Suc depth) ts x = collect (\<lambda>c. descendants depth ts (t_id c)) (childrenOf ts x)"

text \<open>
  A reply chain below \<open>x\<close>: \<open>x\<close> has the one reply \<open>c\<close>, which has one reply, and so on
  down to a thread without replies.
\<close>

fun chain :: "thread list \<Rightarrow> oid \<Rightarrow> thread list \<Rightarrow> bool" where
  "chain ts x [] = (childrenOf ts x = [])"
| "chain ts x (c # cs) = (childrenOf ts x = [c] \<and> chain ts (t_id c) cs)"

text \<open>What a cascade from \<open>x\<close> is to delete: \<open>x\<close> and its transitive descendants.\<close>

definition deletedIds :: "oid \<Rightarrow> thread list \<Rightarrow> oid set" where
  "deletedIds x ts = insert x (descendantIds ts x)"

section \<open>Several comments in a row\<close>

text \<open>
  One call of \<open>addCommentToThread\<close> on the thread \<open>threadId\<close> for each pair of a comment
  text and a user id, in order; \<open>None\<close> as soon as a call throws.
\<close>

fun addComments :: "oid \<Rightarrow> (string \<times> oid) list \<Rightarrow> string \<Rightarrow> world \<Rightarrow> world option" where
  "addComments threadId [] path w = Some w"
| "addComments threadId ((commentText, userId) # rest) path w =
     (case addCommentToThread threadId commentText userId path w of
        (Inl e, w1) \<Rightarrow> None
      | (Inr u, w1) \<Rightarrow> addComments threadId rest path w1)"

section \<open>What a failure can be\<close>



section \<open>Sample data\<close>

definition post :: "oid \<Rightarrow> oid \<Rightarrow> nat \<Rightarrow> oid list \<Rightarrow> thread" where
  "post i a at ch = \<lparr>t_id = i, t_text = ''post'', t_author = a, t_community = None,
                     t_createdAt = at, t_parentId = None, t_children = ch\<rparr>"

definition reply :: "oid \<Rightarrow> oid \<Rightarrow> oid \<Rightarrow> oid list \<Rightarrow> thread" where
  "reply i a parent ch = \<lparr>t_id = i, t_text = ''reply'', t_author = a, t_community = Some 200,
                          t_createdAt = i, t_parentId = Some parent, t_children = ch\<rparr>"

definition alice :: user where
  "alice = \<lparr>u_id = 100, u_uid = ''alice'', u_name = ''Alice'', u_image = ''a.png'',
            u_threads = [1, 3, 9, 5, 6]\<rparr>"

definition bob :: user where
  "bob = \<lparr>u_id = 101, u_uid = ''bob'', u_name = ''Bob'', u_image = ''b.png'',
          u_threads = [2, 4]\<rparr>"

definition club :: community where
  "club = \<lparr>c_id = 200, c_cid = ''club'', c_name = ''Club'', c_image = ''c.png'',
           c_threads = [2, 3, 4, 5]\<rparr>"

text \<open>
  Post 1 has the replies 2 and 3, 2 has the reply 4, 4 has the reply 5; post 6 stands
  alone. Alice's list also holds the id 9 of no thread.
\<close>

definition forum :: world where
  "forum = \<lparr>threads = [post 1 100 10 [2, 3], reply 2 101 1 [4], reply 3 100 1 [],
                       reply 4 101 2 [5], reply 5 100 4 [], post 6 100 60 []],
            users = [alice, bob], communities = [club], nextOid = 7, clock = 70,
            faults = [], console = []\<rparr>"

text \<open>The same forum when the next round trip to the store fails.\<close>

definition outage :: world where
  "outage = forum\<lparr>faults := [Some ''boom'']\<rparr>"

definition hello :: Params where
  "hello = \<lparr>pr_text = ''hello'', pr_author = 100, pr_communityId = Some ''club'',
            pr_path = ''/''\<rparr>"

text \<open>A store of 25 posts, the post with id \<open>i\<close> created at time \<open>i\<close>, and one reply.\<close>

definition feed25 :: world where
  "feed25 = \<lparr>threads = map (\<lambda>i. post i 100 i []) [1..<26] @ [reply 26 101 3 []],
             users = [alice, bob], communities = [club], nextOid = 27, clock = 70,
             faults = [], console = []\<rparr>"

text \<open>
  What \<open>fetchThreadById\<close> returns for post 1 of the forum: its replies 2 and 3 and the
  reply 4 of 2 are embedded, the reply 5 of 4 is not.
\<close>

definition aliceView :: user_view where
  "aliceView = \<lparr>uv_id = 100, uv_uid = Some ''alice'', uv_name = Some ''Alice'',
                uv_image = Some ''a.png'', uv_threads = None\<rparr>"

definition bobView :: user_view where
  "bobView = \<lparr>uv_id = 101, uv_uid = Some ''bob'', uv_name = Some ''Bob'',
              uv_image = Some ''b.png'', uv_threads = None\<rparr>"

definition thread4_fetched :: pthread where
  "thread4_fetched = PThread 4 ''reply'' (Populated bobView) (Raw 200) 4 (Some 2) [Raw 5]"

definition thread2_fetched :: pthread where
  "thread2_fetched =
     PThread 2 ''reply'' (Populated bobView) (Raw 200) 2 (Some 1) [Populated thread4_fetched]"

definition thread1_fetched :: pthread where
  "thread1_fetched =
     PThread 1 ''post'' (Populated aliceView) Null 10 None
       [Populated thread2_fetched,
        Populated (PThread 3 ''reply'' (Populated aliceView) (Raw 200) 3 (Some 1) [])]"

text \<open>What \<open>fetchThreadById\<close> returns for the thread that \<open>hello\<close> creates in the forum.\<close>

definition hello_fetched :: pthread where
  "hello_fetched =
     PThread 7 ''hello''
       (Populated \<lparr>uv_id = 100, uv_uid = Some ''alice'', uv_name = Some ''Alice'',
                   uv_image = Some ''a.png'', uv_threads = None\<rparr>)
       (Populated \<lparr>cv_id = 200, cv_cid = Some ''club'', cv_name = Some ''Club'',
                   cv_image = Some ''c.png'', cv_threads = None\<rparr>)
       70 None []"

section \<open>Stepping through an action\<close>

lemma await_Inr_E:
  assumes "await operation w = (Inr x, w')"
  obtains fs where "set fs \<subseteq> set (faults w)" "operation (w\<lparr>faults := fs\<rparr>) = (Inr x, w')"
proof (cases "faults w")
  case Nil
  with assms have "operation w = (Inr x, w')" by (simp add: await_def)
  moreover have "w\<lparr>faults := faults w\<rparr> = w" by simp
  ultimately show ?thesis using that[of "faults w"] by (simp del: world.update_convs)
next
  case (Cons a fs)
  with assms have "operation (w\<lparr>faults := fs\<rparr>) = (Inr x, w')"
    by (cases a) (simp_all add: await_def)
  then show ?thesis using that[of fs] Cons by auto
qed

lemma await_Inl_E:
  assumes "await operation w = (Inl e, w')"
  obtains (fault) m where "Some m \<in> set (faults w)" "e = Error m"
        | (own) fs where "set fs \<subseteq> set (faults w)" "operation (w\<lparr>faults := fs\<rparr>) = (Inl e, w')"
proof (cases "faults w")
  case Nil
  with assms have "operation w = (Inl e, w')" by (simp add: await_def)
  moreover have "w\<lparr>faults := faults w\<rparr> = w" by simp
  ultimately show ?thesis using own[of "faults w"] by (simp del: world.update_convs)
next
  case (Cons a fs)
  show ?thesis
  proof (cases a)
    case None
    with Cons assms have "operation (w\<lparr>faults := fs\<rparr>) = (Inl e, w')" by (simp add: await_def)
    then show ?thesis using own[of fs] Cons by auto
  next
    case (Some m)
    with Cons assms have "e = Error m" by (simp_all add: await_def)
    then show ?thesis using fault[of m] Cons Some by auto
  qed
qed

lemma await_no_faults: "faults w = [] \<Longrightarrow> await operation w = operation w"
  by (simp add: await_def)

lemma andThen_Inr_E:
  assumes "andThen m k w = (Inr y, w')"
  obtains x w1 where "m w = (Inr x, w1)" "k x w1 = (Inr y, w')"
  using assms by (auto simp: andThen_def split: prod.splits sum.splits)

lemma andThen_Inl_E:
  assumes "andThen m k w = (Inl e, w')"
  obtains (first) "m w = (Inl e, w')"
        | (later) x w1 where "m w = (Inr x, w1)" "k x w1 = (Inl e, w')"
  using assms by (auto simp: andThen_def split: prod.splits sum.splits)

lemma tryCatch_Inr_E:
  assumes "tryCatch body handler w = (Inr y, w')"
  obtains (body) "body w = (Inr y, w')"
        | (handler) e w1 where "body w = (Inl e, w1)" "handler e w1 = (Inr y, w')"
  using assms by (auto simp: tryCatch_def split: prod.splits sum.splits)


lemma andThenP_Inr_E:
  assumes "andThenP m k w = Some (Inr y, w')"
  obtains x w1 where "m w = Some (Inr x, w1)" "k x w1 = Some (Inr y, w')"
  using assms by (auto simp: andThenP_def split: option.splits prod.splits sum.splits)

lemma andThenP_Inl_E:
  assumes "andThenP m k w = Some (Inl e, w')"
  obtains (first) "m w = Some (Inl e, w')"
        | (later) x w1 where "m w = Some (Inr x, w1)" "k x w1 = Some (Inl e, w')"
  using assms by (auto simp: andThenP_def split: option.splits prod.splits sum.splits)

lemma tryCatchP_Inr_E:
  assumes "tryCatchP body handler w = Some (Inr y, w')"
  obtains (body) "body w = Some (Inr y, w')"
        | (handler) e w1 where "body w = Some (Inl e, w1)" "handler e w1 = (Inr y, w')"
  using assms by (auto simp: tryCatchP_def split: option.splits prod.splits sum.splits)


lemma total_E:
  assumes "total m w = Some r"
  obtains "m w = r"
  using assms by (simp add: total_def)

section \<open>The traversal\<close>

lemma forEach_Inr:
  assumes step: "\<And>c acc w r w'. body c acc w = Some (Inr r, w') \<Longrightarrow>
            \<exists>fs d. set fs \<subseteq> set (faults w) \<and> w' = w\<lparr>faults := fs\<rparr> \<and>
                   f (threads w) c = Some d \<and> r = acc @ c # d"
    and run: "forEach body cs acc w = Some (Inr r, w')"
  shows "\<exists>fs ds. set fs \<subseteq> set (faults w) \<and> w' = w\<lparr>faults := fs\<rparr> \<and>
                 collect (f (threads w)) cs = Some ds \<and> r = acc @ ds"
  using run
proof (induction cs arbitrary: acc w)
  case Nil
  then have "r = acc" "w' = w" by (simp_all add: total_def return_def)
  moreover have "w\<lparr>faults := faults w\<rparr> = w" by simp
  ultimately show ?case by (intro exI[of _ "faults w"]) (simp del: world.update_convs)
next
  case (Cons c cs)
  from Cons.prems obtain acc1 w1 where
    b: "body c acc w = Some (Inr acc1, w1)" and
    rest: "forEach body cs acc1 w1 = Some (Inr r, w')"
    by (auto elim: andThenP_Inr_E)
  from step[OF b] obtain fs d where
    1: "set fs \<subseteq> set (faults w)" "w1 = w\<lparr>faults := fs\<rparr>" "f (threads w) c = Some d"
       "acc1 = acc @ c # d"
    by blast
  from Cons.IH[OF rest] obtain fs' ds where
    2: "set fs' \<subseteq> set (faults w1)" "w' = w1\<lparr>faults := fs'\<rparr>"
       "collect (f (threads w1)) cs = Some ds" "r = acc1 @ ds"
    by blast
  from 1 2 show ?case
    by (intro exI[of _ fs'] exI[of _ "c # d @ ds"]) auto
qed

lemma fetchAllChildThreads_Inr:
  "fetchAllChildThreads depth x w = Some (Inr ds, w') \<Longrightarrow>
     \<exists>fs. set fs \<subseteq> set (faults w) \<and> w' = w\<lparr>faults := fs\<rparr> \<and>
          descendants depth (threads w) x = Some ds"
proof (induction depth arbitrary: x w ds w')
  case 0
  then show ?case by simp
next
  case (Suc depth)
  let ?body = "\<lambda>childThread descendantThreads.
            andThenP (fetchAllChildThreads depth (t_id childThread)) (\<lambda>descendants.
            total (return (descendantThreads @ childThread # descendants)))"
  from Suc.prems obtain cs w1 where
    q: "await (query (Thread_find_parentId x)) w = (Inr cs, w1)" and
    loop: "forEach ?body cs [] w1 = Some (Inr ds, w')"
    by (auto elim!: andThenP_Inr_E total_E)
  from q obtain fs where
    1: "set fs \<subseteq> set (faults w)" "w1 = w\<lparr>faults := fs\<rparr>" "cs = childrenOf (threads w) x"
    by (auto elim!: await_Inr_E simp: query_def Thread_find_parentId_def childrenOf_def)
  have step: "\<exists>fs d. set fs \<subseteq> set (faults v) \<and> v' = v\<lparr>faults := fs\<rparr> \<and>
                   (\<lambda>ts c. descendants depth ts (t_id c)) (threads v) c = Some d \<and> r = acc @ c # d"
    if "?body c acc v = Some (Inr r, v')" for c acc v r v'
    using that Suc.IH by (fastforce elim!: andThenP_Inr_E total_E simp: return_def)
  from forEach_Inr[of ?body "\<lambda>ts c. descendants depth ts (t_id c)", OF step loop]
  obtain fs' where
    2: "set fs' \<subseteq> set (faults w1)" "w' = w1\<lparr>faults := fs'\<rparr>"
       "collect (\<lambda>c. descendants depth (threads w1) (t_id c)) cs = Some ds"
    by auto
  from 1 2 show ?case
    by (intro exI[of _ fs']) auto
qed

section \<open>Failures are store failures\<close>












lemma forEach_no_faults:
  assumes step: "\<And>c acc. body c acc w = map_option (\<lambda>d. (Inr (acc @ c # d), w)) (f c)"
  shows "forEach body cs acc w = map_option (\<lambda>ds. (Inr (acc @ ds), w)) (collect f cs)"
proof (induction cs arbitrary: acc)
  case Nil
  show ?case by (simp add: total_def return_def)
next
  case (Cons c cs)
  show ?case
    by (cases "f c") (auto simp: andThenP_def step Cons.IH split: option.splits)
qed

lemma fetchAllChildThreads_no_faults:
  "faults w = [] \<Longrightarrow>
   fetchAllChildThreads depth x w = map_option (\<lambda>ds. (Inr ds, w)) (descendants depth (threads w) x)"
proof (induction depth arbitrary: x)
  case 0
  show ?case by simp
next
  case (Suc depth)
  let ?body = "\<lambda>childThread descendantThreads.
            andThenP (fetchAllChildThreads depth (t_id childThread)) (\<lambda>descendants.
            total (return (descendantThreads @ childThread # descendants)))"
  let ?f = "\<lambda>c. descendants depth (threads w) (t_id c)"
  have step: "?body c acc w = map_option (\<lambda>d. (Inr (acc @ c # d), w)) (?f c)"
    for c acc
    using Suc by (cases "?f c") (simp_all add: andThenP_def total_def return_def)
  have "forEach ?body cs [] w = map_option (\<lambda>ds. (Inr ([] @ ds), w)) (collect ?f cs)" for cs
    using step by (rule forEach_no_faults[where body = ?body and f = ?f])
  with Suc.prems show ?case
    by (simp add: andThenP_def total_def await_no_faults query_def Thread_find_parentId_def childrenOf_def)
qed

section \<open>Failures\<close>









section \<open>The feed\<close>

lemma p_id_simps [simp]:
  "p_id (onAuthor f d) = p_id d" "p_id (onCommunity g d) = p_id d"
  "p_id (onChildren h d) = p_id d" "p_id (hydrate t) = t_id t"
  by (cases d; simp add: hydrate_def)+

lemma p_parentId_simps [simp]:
  "p_parentId (onAuthor f d) = p_parentId d" "p_parentId (onCommunity g d) = p_parentId d"
  "p_parentId (onChildren h d) = p_parentId d" "p_parentId (hydrate t) = t_parentId t"
  by (cases d; simp add: hydrate_def)+

lemma mset_insertDesc: "mset (insertDesc x ys) = add_mset x (mset ys)"
  by (induction ys) auto

lemma mset_sortDesc: "mset (sortDesc xs) = mset xs"
  by (induction xs) (auto simp: mset_insertDesc)

lemma set_insertDesc: "set (insertDesc x ys) = insert x (set ys)"
  by (induction ys) auto

lemma sorted_insertDesc:
  "sorted_wrt (\<lambda>a b. t_createdAt b \<le> t_createdAt a) ys \<Longrightarrow>
   sorted_wrt (\<lambda>a b. t_createdAt b \<le> t_createdAt a) (insertDesc x ys)"
  by (induction ys) (auto simp: set_insertDesc)

lemma sorted_sortDesc: "sorted_wrt (\<lambda>a b. t_createdAt b \<le> t_createdAt a) (sortDesc xs)"
  by (induction xs) (auto simp: sorted_insertDesc)

lemma length_sortDesc: "length (sortDesc xs) = length xs"
  using mset_sortDesc[of xs] by (metis size_mset)

lemma set_sortDesc: "set (sortDesc xs) = set xs"
  using mset_sortDesc[of xs] by (metis set_mset_mset)

lemma fetchPosts_Inr:
  assumes "fetchPosts pageNumber pageSize w = (Inr (posts, isNext), w')"
  shows "0 \<le> (pageNumber - 1) * pageSize \<and>
     map p_id posts =
       map t_id (limitDocs pageSize (drop (nat ((pageNumber - 1) * pageSize)) (sortDesc (topLevel w)))) \<and>
     (\<forall>d \<in> set posts. p_parentId d = None) \<and>
     isNext = (int (length (topLevel w)) > (pageNumber - 1) * pageSize + int (length posts))"
proof -
  from assms obtain fs where
    3: "postsQuery ((pageNumber - 1) * pageSize) pageSize (w\<lparr>faults := fs\<rparr>) = (Inr posts, w')" and
    4: "isNext = (int (length (topLevel w)) > (pageNumber - 1) * pageSize + int (length posts))"
    unfolding fetchPosts_def Let_def
    by (auto elim!: andThen_Inr_E await_Inr_E
        simp: return_def query_def Thread_countDocuments_topLevel_def topLevel_def)
  have top: "topLevel (w\<lparr>faults := fs\<rparr>) = topLevel w"
    by (simp add: topLevel_def)
  from 3 have pos: "0 \<le> (pageNumber - 1) * pageSize"
    by (auto simp: postsQuery_def split: if_splits)
  with 3 top have ids: "map p_id posts =
       map t_id (limitDocs pageSize (drop (nat ((pageNumber - 1) * pageSize)) (sortDesc (topLevel w))))"
    by (auto simp: postsQuery_def o_def split: if_splits)
  have "\<forall>d \<in> set posts. p_parentId d = None"
  proof
    fix d assume "d \<in> set posts"
    with 3 pos top obtain t where "t \<in> set (limitDocs pageSize (drop (nat ((pageNumber - 1) * pageSize)) (sortDesc (topLevel w))))"
      "p_parentId d = t_parentId t"
      by (auto simp: postsQuery_def split: if_splits)
    moreover then have "t \<in> set (topLevel w)"
      by (auto simp: limitDocs_def set_sortDesc split: if_splits dest!: in_set_takeD in_set_dropD)
    ultimately show "p_parentId d = None" by (simp add: topLevel_def)
  qed
  with pos ids 4 show ?thesis by simp
qed

lemma fetchPosts_no_faults:
  assumes "faults w = []" "0 \<le> (pageNumber - 1) * pageSize"
  shows "\<exists>r. fetchPosts pageNumber pageSize w = (Inr r, w)"
  using assms
  by (simp add: fetchPosts_def Let_def andThen_def await_no_faults query_def postsQuery_def return_def)

section \<open>Populating\<close>

lemma p_children_simps [simp]:
  "p_children (onAuthor f d) = p_children d" "p_children (onCommunity g d) = p_children d"
  "p_children (onChildren h d) = h (p_children d)" "p_children (hydrate t) = map Raw (t_children t)"
  by (cases d; simp add: hydrate_def)+

lemma p_author_simps [simp]:
  "p_author (onAuthor f d) = f (p_author d)" "p_author (onCommunity g d) = p_author d"
  "p_author (onChildren h d) = p_author d" "p_author (hydrate t) = Raw (t_author t)"
  by (cases d; simp add: hydrate_def)+

lemma Thread_findById_Some: "Thread_findById j w = Some t \<Longrightarrow> t_id t = j \<and> t \<in> set (threads w)"
  by (auto simp: Thread_findById_def find_Some_iff)

lemma populateChildren_Raw:
  "populateChildren nested w (map Raw js) =
     concat (map (\<lambda>j. case Thread_findById j w of
                          None \<Rightarrow> []
                        | Some t \<Rightarrow> [Populated (nested (hydrate t))]) js)"
  by (induction js) (auto simp: populateChildren_def List.map_filter_simps split: option.splits)

lemma set_populateChildren_Raw:
  "set (populateChildren nested w (map Raw js)) =
     {Populated (nested (hydrate t)) | j t. j \<in> set js \<and> Thread_findById j w = Some t}"
proof -
  have "set (case Thread_findById j w of None \<Rightarrow> [] | Some t \<Rightarrow> [Populated (nested (hydrate t))]) =
          {Populated (nested (hydrate t)) | t. Thread_findById j w = Some t}" for j
    by (cases "Thread_findById j w") auto
  then show ?thesis unfolding populateChildren_Raw by (simp del: set_concat add: set_concat) blast
qed

lemma findById_faults [simp]:
  "Thread_findById i (w\<lparr>faults := fs\<rparr>) = Thread_findById i w"
  "User_findById i (w\<lparr>faults := fs\<rparr>) = User_findById i w"
  "Community_findById i (w\<lparr>faults := fs\<rparr>) = Community_findById i w"
  by (simp_all add: User_findById_def Community_findById_def Thread_findById_def)

lemma populate_faults [simp]:
  "populateUser sel (w\<lparr>faults := fs\<rparr>) = populateUser sel w"
  "populateCommunity sel' (w\<lparr>faults := fs\<rparr>) = populateCommunity sel' w"
  "populateChildren nested (w\<lparr>faults := fs\<rparr>) = populateChildren nested w"
  by (rule ext; simp add: populateUser_def populateCommunity_def populateChildren_def
        cong: ref.case_cong)+

lemma threadQuery_faults [simp]: "threadQuery i (w\<lparr>faults := fs\<rparr>) = threadQuery i w"
  by (simp add: threadQuery_def)

lemma fetchThreadById_Inr:
  assumes "fetchThreadById i w = (Inr r, w')"
  shows "r = threadQuery i w"
  using assms unfolding fetchThreadById_def
  by (auto elim!: tryCatch_Inr_E andThen_Inr_E andThen_Inl_E await_Inr_E
      simp: query_def return_def throw_def console_error_def)

lemma fetchThreadById_levels:
  assumes "fetchThreadById i w = (Inr (Some d), w')"
  shows "\<exists>t. Thread_findById i w = Some t \<and>
     (\<forall>j \<in> set (t_children t). \<forall>t1. Thread_findById j w = Some t1 \<longrightarrow>
        (\<exists>c1. Populated c1 \<in> set (p_children d) \<and> p_id c1 = j)) \<and>
     (\<forall>r1 \<in> set (p_children d). \<exists>c1 t1.
        r1 = Populated c1 \<and> p_id c1 \<in> set (t_children t) \<and>
        Thread_findById (p_id c1) w = Some t1 \<and>
        p_author c1 = (case User_findById (t_author t1) w of
                         None \<Rightarrow> Null | Some u \<Rightarrow> Populated (user_id_name_image u)) \<and>
        (\<forall>j \<in> set (t_children t1). \<forall>t2. Thread_findById j w = Some t2 \<longrightarrow>
           (\<exists>c2. Populated c2 \<in> set (p_children c1) \<and> p_id c2 = j)) \<and>
        (\<forall>r2 \<in> set (p_children c1). \<exists>c2 t2.
           r2 = Populated c2 \<and> p_id c2 \<in> set (t_children t1) \<and>
           Thread_findById (p_id c2) w = Some t2 \<and>
           p_author c2 = (case User_findById (t_author t2) w of
                            None \<Rightarrow> Null | Some u \<Rightarrow> Populated (user_id_name_image u)) \<and>
           p_children c2 = map Raw (t_children t2)))"
proof -
  let ?author = "onAuthor (populateUser user_id_name_image w)"
  let ?level2 = "populateChildren ?author w"
  let ?child = "\<lambda>child. onChildren ?level2 (?author child)"
  from fetchThreadById_Inr[OF assms] obtain t where
    t: "Thread_findById i w = Some t" and
    d: "d = onChildren (populateChildren ?child w)
              (onCommunity (populateCommunity community_id_name_image w) (?author (hydrate t)))"
    by (cases "Thread_findById i w") (auto simp: threadQuery_def)
  have kids: "set (p_children d) =
      {Populated (?child (hydrate t1)) | j t1. j \<in> set (t_children t) \<and> Thread_findById j w = Some t1}"
    unfolding d by (simp add: set_populateChildren_Raw)
  have kids2: "set (p_children (?child (hydrate t1))) =
      {Populated (?author (hydrate t2)) | j t2. j \<in> set (t_children t1) \<and> Thread_findById j w = Some t2}"
    for t1
    by (simp add: set_populateChildren_Raw)
  have author: "p_author (?author (hydrate t1)) =
      (case User_findById (t_author t1) w of None \<Rightarrow> Null | Some u \<Rightarrow> Populated (user_id_name_image u))"
    for t1
    by (simp add: populateUser_def)
  have author': "p_author (?child (hydrate t1)) =
      (case User_findById (t_author t1) w of None \<Rightarrow> Null | Some u \<Rightarrow> Populated (user_id_name_image u))"
    for t1
    by (simp add: populateUser_def)
  have level2: "\<exists>c2 t2. r2 = Populated c2 \<and> p_id c2 \<in> set (t_children t1) \<and>
           Thread_findById (p_id c2) w = Some t2 \<and>
           p_author c2 = (case User_findById (t_author t2) w of
                            None \<Rightarrow> Null | Some u \<Rightarrow> Populated (user_id_name_image u)) \<and>
           p_children c2 = map Raw (t_children t2)"
    if "r2 \<in> set (p_children (?child (hydrate t1)))" for r2 t1
  proof -
    from that obtain j t2 where
      "r2 = Populated (?author (hydrate t2))" "j \<in> set (t_children t1)" "Thread_findById j w = Some t2"
      unfolding kids2 by blast
    moreover from this have "t_id t2 = j" by (simp add: Thread_findById_Some)
    ultimately show ?thesis using author[of t2]
      by (intro exI[of _ "?author (hydrate t2)"] exI[of _ t2]) simp
  qed
  have found2: "\<exists>c2. Populated c2 \<in> set (p_children (?child (hydrate t1))) \<and> p_id c2 = j"
    if "j \<in> set (t_children t1)" "Thread_findById j w = Some t2" for j t1 t2
  proof -
    from that have "Populated (?author (hydrate t2)) \<in> set (p_children (?child (hydrate t1)))"
      unfolding kids2 by blast
    moreover from that have "p_id (?author (hydrate t2)) = j" by (simp add: Thread_findById_Some)
    ultimately show ?thesis by blast
  qed
  have level1: "\<exists>c1 t1.
        r1 = Populated c1 \<and> p_id c1 \<in> set (t_children t) \<and>
        Thread_findById (p_id c1) w = Some t1 \<and>
        p_author c1 = (case User_findById (t_author t1) w of
                         None \<Rightarrow> Null | Some u \<Rightarrow> Populated (user_id_name_image u)) \<and>
        (\<forall>j \<in> set (t_children t1). \<forall>t2. Thread_findById j w = Some t2 \<longrightarrow>
           (\<exists>c2. Populated c2 \<in> set (p_children c1) \<and> p_id c2 = j)) \<and>
        (\<forall>r2 \<in> set (p_children c1). \<exists>c2 t2.
           r2 = Populated c2 \<and> p_id c2 \<in> set (t_children t1) \<and>
           Thread_findById (p_id c2) w = Some t2 \<and>
           p_author c2 = (case User_findById (t_author t2) w of
                            None \<Rightarrow> Null | Some u \<Rightarrow> Populated (user_id_name_image u)) \<and>
           p_children c2 = map Raw (t_children t2))"
    if "r1 \<in> set (p_children d)" for r1
  proof -
    from that obtain j t1 where
      r1: "r1 = Populated (?child (hydrate t1))" and j: "j \<in> set (t_children t)"
      and t1: "Thread_findById j w = Some t1"
      unfolding kids by blast
    from t1 have id: "t_id t1 = j" by (simp add: Thread_findById_Some)
    show ?thesis
    proof (rule exI[of _ "?child (hydrate t1)"], rule exI[of _ t1], intro conjI ballI allI impI)
      show "r1 = Populated (?child (hydrate t1))" by (rule r1)
      show "p_id (?child (hydrate t1)) \<in> set (t_children t)" using j id by simp
      show "Thread_findById (p_id (?child (hydrate t1))) w = Some t1" using t1 id by simp
      show "p_author (?child (hydrate t1)) =
        (case User_findById (t_author t1) w of None \<Rightarrow> Null | Some u \<Rightarrow> Populated (user_id_name_image u))"
        by (rule author')
      show "\<exists>c2. Populated c2 \<in> set (p_children (?child (hydrate t1))) \<and> p_id c2 = j'"
        if "j' \<in> set (t_children t1)" "Thread_findById j' w = Some t2" for j' t2
        using that by (rule found2)
      show "\<exists>c2 t2. r2 = Populated c2 \<and> p_id c2 \<in> set (t_children t1) \<and>
           Thread_findById (p_id c2) w = Some t2 \<and>
           p_author c2 = (case User_findById (t_author t2) w of
                            None \<Rightarrow> Null | Some u \<Rightarrow> Populated (user_id_name_image u)) \<and>
           p_children c2 = map Raw (t_children t2)"
        if "r2 \<in> set (p_children (?child (hydrate t1)))" for r2
        using that by (rule level2)
    qed
  qed
  have found1: "\<exists>c1. Populated c1 \<in> set (p_children d) \<and> p_id c1 = j"
    if "j \<in> set (t_children t)" "Thread_findById j w = Some t1" for j t1
  proof -
    from that have "Populated (?child (hydrate t1)) \<in> set (p_children d)"
      unfolding kids by blast
    moreover from that have "p_id (?child (hydrate t1)) = j" by (simp add: Thread_findById_Some)
    ultimately show ?thesis by blast
  qed
  from t level1 found1 show ?thesis by blast
qed

section \<open>Creating a post\<close>

lemma p_text_simps [simp]:
  "p_text (onAuthor f d) = p_text d" "p_text (onCommunity g d) = p_text d"
  "p_text (onChildren h d) = p_text d" "p_text (hydrate t) = t_text t"
  by (cases d; simp add: hydrate_def)+

lemma fetchThreadById_existing:
  assumes "Thread_findById i w = Some t"
  shows "faults w = [] \<Longrightarrow> \<exists>d. fetchThreadById i w = (Inr (Some d), w)"
    and "fetchThreadById i w = (Inr r, w') \<Longrightarrow>
         \<exists>d. r = Some d \<and> p_id d = i \<and> p_text d = t_text t \<and>
            p_parentId d = t_parentId t \<and>
            p_author d = (case User_findById (t_author t) w of
                            None \<Rightarrow> Null | Some u \<Rightarrow> Populated (user_id_name_image u))"
proof -
  from assms have q: "\<exists>d. threadQuery i w = Some d" by (simp add: threadQuery_def)
  show "\<exists>d. fetchThreadById i w = (Inr (Some d), w)" if "faults w = []"
    using that q
    by (auto simp: fetchThreadById_def tryCatch_def andThen_def await_no_faults query_def
        return_def)
  show "\<exists>d. r = Some d \<and> p_id d = i \<and> p_text d = t_text t \<and>
            p_parentId d = t_parentId t \<and>
            p_author d = (case User_findById (t_author t) w of
                            None \<Rightarrow> Null | Some u \<Rightarrow> Populated (user_id_name_image u))"
    if "fetchThreadById i w = (Inr r, w')"
    using fetchThreadById_Inr[OF that] assms Thread_findById_Some[OF assms]
    by (simp add: threadQuery_def populateUser_def)
qed

lemma find_append:
  "find P (xs @ ys) = (case find P xs of None \<Rightarrow> find P ys | Some x \<Rightarrow> Some x)"
  by (induction xs) auto

lemma populateChildren_Nil [simp]: "populateChildren nested w [] = []"
  by (simp add: populateChildren_def List.map_filter_simps)

lemma createThread_Inr:
  assumes "createThread p w = (Inr x, w')"
  shows "pr_text p \<noteq> [] \<and> nextOid w \<notin> t_id ` set (threads w) \<and>
     threads w' = threads w @
        [\<lparr>t_id = nextOid w, t_text = pr_text p, t_author = pr_author p,
          t_community = Community_findOne_id (pr_communityId p) w, t_createdAt = clock w,
          t_parentId = None, t_children = []\<rparr>] \<and>
     users w' = map (\<lambda>u. if u_id u = pr_author p
                           then u\<lparr>u_threads := u_threads u @ [nextOid w]\<rparr> else u) (users w) \<and>
     communities w' =
       (case Community_findOne_id (pr_communityId p) w of
          None \<Rightarrow> communities w
        | Some cid \<Rightarrow> map (\<lambda>c. if c_id c = cid
                                then c\<lparr>c_threads := c_threads c @ [nextOid w]\<rparr> else c)
                         (communities w))"
  using assms unfolding createThread_def
  apply (elim tryCatch_Inr_E andThen_Inr_E await_Inr_E)
   apply (auto simp: query_def command_def return_def throw_def Thread_save_new_def Let_def
      User_findByIdAndUpdate_push_def Community_findByIdAndUpdate_push_def Community_findOne_id_def
      split: if_splits option.splits elim!: await_Inr_E)
  done

section \<open>Adding comments\<close>

lemma addCommentToThread_Inr:
  assumes "addCommentToThread i txt u path w = (Inr x, w')"
  shows "\<exists>orig. Thread_findById i w = Some orig \<and> txt \<noteq> [] \<and>
     nextOid w \<notin> t_id ` set (threads w) \<and>
     threads w' =
       map (\<lambda>t. if t_id t = i then t\<lparr>t_children := t_children t @ [nextOid w]\<rparr> else t)
         (threads w @ [\<lparr>t_id = nextOid w, t_text = txt, t_author = u, t_community = None,
                        t_createdAt = clock w, t_parentId = Some i, t_children = []\<rparr>]) \<and>
     users w' = users w \<and> communities w' = communities w"
  using assms unfolding addCommentToThread_def
  apply (elim tryCatch_Inr_E andThen_Inr_E await_Inr_E)
   apply (auto simp: query_def command_def return_def throw_def Thread_save_new_def Let_def
      console_error_def Thread_save_children_push_def Thread_findById_Some
      split: if_splits option.splits elim!: await_Inr_E andThen_Inr_E)
  done

lemma find_map_id:
  assumes "\<And>t. t_id (f t) = t_id t"
  shows "find (\<lambda>t. t_id t = x) (map f ts) = map_option f (find (\<lambda>t. t_id t = x) ts)"
  by (induction ts) (auto simp: assms)

lemma addCommentToThread_step:
  assumes run: "addCommentToThread i txt u path w = (Inr x, w')"
    and p: "Thread_findById i w = Some p"
  shows "nextOid w \<noteq> i"
    and "Thread_findById i w' = Some (p\<lparr>t_children := t_children p @ [nextOid w]\<rparr>)"
    and "Thread_findById (nextOid w) w' =
           Some \<lparr>t_id = nextOid w, t_text = txt, t_author = u, t_community = None,
                 t_createdAt = clock w, t_parentId = Some i, t_children = []\<rparr>"
    and "\<And>j c. j \<noteq> i \<Longrightarrow> Thread_findById j w = Some c \<Longrightarrow> Thread_findById j w' = Some c"
proof -
  let ?new = "\<lparr>t_id = nextOid w, t_text = txt, t_author = u, t_community = None,
                 t_createdAt = clock w, t_parentId = Some i, t_children = []\<rparr>"
  let ?f = "\<lambda>t. if t_id t = i then t\<lparr>t_children := t_children t @ [nextOid w]\<rparr> else t"
  from addCommentToThread_Inr[OF run] have
    fresh: "nextOid w \<notin> t_id ` set (threads w)" and ts: "threads w' = map ?f (threads w @ [?new])"
    by auto
  from p have pid: "t_id p = i" "p \<in> set (threads w)" by (simp_all add: Thread_findById_Some)
  with fresh show ne: "nextOid w \<noteq> i" by force
  have fid: "t_id (?f t) = t_id t" for t by simp
  have look: "Thread_findById j w' =
      map_option ?f (case Thread_findById j w of None \<Rightarrow> (if nextOid w = j then Some ?new else None)
                      | Some t \<Rightarrow> Some t)" for j
    unfolding Thread_findById_def ts find_map_id[of ?f, OF fid] find_append
    by (simp split: option.splits)
  from look[of i] p pid show "Thread_findById i w' = Some (p\<lparr>t_children := t_children p @ [nextOid w]\<rparr>)"
    by simp
  from fresh have "Thread_findById (nextOid w) w = None"
    by (force simp: Thread_findById_def find_None_iff image_iff)
  with look[of "nextOid w"] ne show "Thread_findById (nextOid w) w' = Some ?new" by simp
  show "Thread_findById j w' = Some c" if "j \<noteq> i" "Thread_findById j w = Some c" for j c
    using look[of j] that Thread_findById_Some[OF that(2)] by simp
qed

lemma addComments_Some:
  assumes "addComments i cs path w = Some w'" and "Thread_findById i w = Some p"
  shows "\<exists>ids. length ids = length cs \<and>
     Thread_findById i w' = Some (p\<lparr>t_children := t_children p @ ids\<rparr>) \<and>
     (\<forall>k < length cs. \<exists>c. Thread_findById (ids ! k) w' = Some c \<and> t_parentId c = Some i \<and>
        t_text c = fst (cs ! k) \<and> t_author c = snd (cs ! k)) \<and>
     (\<forall>j c. j \<noteq> i \<longrightarrow> Thread_findById j w = Some c \<longrightarrow> Thread_findById j w' = Some c) \<and>
     i \<notin> set ids"
  using assms
proof (induction cs arbitrary: w p)
  case Nil
  then show ?case by simp
next
  case (Cons a cs)
  obtain ctext u where pair: "a = (ctext, u)" by (cases a)
  from Cons.prems(1) pair obtain x w1 where
    run: "addCommentToThread i ctext u path w = (Inr x, w1)" and
    rest: "addComments i cs path w1 = Some w'"
    by (auto split: prod.splits sum.splits)
  let ?new = "\<lparr>t_id = nextOid w, t_text = ctext, t_author = u, t_community = None,
                 t_createdAt = clock w, t_parentId = Some i, t_children = []\<rparr>"
  let ?p1 = "p\<lparr>t_children := t_children p @ [nextOid w]\<rparr>"
  note s = addCommentToThread_step[OF run Cons.prems(2)]
  from Cons.IH[OF rest s(2)] obtain ids where
    len: "length ids = length cs" and
    parent: "Thread_findById i w' = Some (?p1\<lparr>t_children := t_children ?p1 @ ids\<rparr>)" and
    each: "\<forall>k < length cs. \<exists>c. Thread_findById (ids ! k) w' = Some c \<and> t_parentId c = Some i \<and>
        t_text c = fst (cs ! k) \<and> t_author c = snd (cs ! k)" and
    keep: "\<forall>j c. j \<noteq> i \<longrightarrow> Thread_findById j w1 = Some c \<longrightarrow> Thread_findById j w' = Some c" and
    notin: "i \<notin> set ids"
    by blast
  from keep s(1) s(3) have first: "Thread_findById (nextOid w) w' = Some ?new" by blast
  show ?case
  proof (rule exI[of _ "nextOid w # ids"], intro conjI allI impI)
    show "length (nextOid w # ids) = length (a # cs)" using len by simp
    show "Thread_findById i w' = Some (p\<lparr>t_children := t_children p @ nextOid w # ids\<rparr>)"
      using parent by simp
    show "i \<notin> set (nextOid w # ids)" using notin s(1) by simp
    show "Thread_findById j w' = Some c" if "j \<noteq> i" "Thread_findById j w = Some c" for j c
      using keep s(4)[OF that] that(1) by blast
    show "\<exists>c. Thread_findById ((nextOid w # ids) ! k) w' = Some c \<and> t_parentId c = Some i \<and>
        t_text c = fst ((a # cs) ! k) \<and> t_author c = snd ((a # cs) ! k)"
      if "k < length (a # cs)" for k
    proof (cases k)
      case 0
      with first pair show ?thesis by simp
    next
      case (Suc k')
      with that each show ?thesis by simp
    qed
  qed
qed

lemma addCommentToThread_missing:
  assumes "Thread_findById i w = None"
  shows "\<exists>w'. addCommentToThread i txt u path w = (Inl (Error ''Unable to add comment''), w') \<and>
     threads w' = threads w \<and> users w' = users w \<and> communities w' = communities w"
  using assms
  by (cases "faults w"; cases "hd (faults w)")
     (auto simp: addCommentToThread_def tryCatch_def andThen_def await_def query_def throw_def
        console_error_def Thread_findById_def split: list.splits option.splits)

section \<open>The traversal on a fixed collection\<close>

lemma collect_Some_iff:
  "collect f cs = Some r \<Longrightarrow> c \<in> set cs \<Longrightarrow> \<exists>d. f c = Some d \<and> set d \<subseteq> set r \<and> length d < length r"
proof (induction cs arbitrary: r)
  case Nil
  then show ?case by simp
next
  case (Cons a cs)
  from Cons.prems(1) obtain d r' where
    a: "f a = Some d" and r': "collect f cs = Some r'" and r: "r = a # d @ r'"
    by (auto split: option.splits)
  show ?case
  proof (cases "c = a")
    case True
    with a r show ?thesis by auto
  next
    case False
    with Cons.prems(2) have "c \<in> set cs" by simp
    from Cons.IH[OF r' this] r show ?thesis by auto
  qed
qed

lemma collect_set:
  "collect f cs = Some r \<Longrightarrow> set r = set cs \<union> (\<Union>c \<in> set cs. set (the (f c)))"
proof (induction cs arbitrary: r)
  case Nil
  then show ?case by simp
next
  case (Cons a cs)
  from Cons.prems(1) obtain d r' where
    a: "f a = Some d" and r': "collect f cs = Some r'" and r: "r = a # d @ r'"
    by (auto split: option.splits)
  from Cons.IH[OF r'] a r show ?case by auto
qed

lemma collect_mono:
  assumes "\<And>c d. c \<in> set cs \<Longrightarrow> f c = Some d \<Longrightarrow> g c = Some d"
  shows "collect f cs = Some r \<Longrightarrow> collect g cs = Some r"
  using assms
proof (induction cs arbitrary: r)
  case Nil
  then show ?case by simp
next
  case (Cons a cs)
  from Cons.prems(1) obtain d r' where
    a: "f a = Some d" and r': "collect f cs = Some r'" and r: "r = a # d @ r'"
    by (auto split: option.splits)
  from Cons.prems(2)[of a d] a have "g a = Some d" by simp
  moreover from Cons.IH[OF r'] Cons.prems(2) have "collect g cs = Some r'" by simp
  ultimately show ?case using r by simp
qed

lemma collect_total:
  assumes "\<And>c. c \<in> set cs \<Longrightarrow> \<exists>d. f c = Some d"
  shows "\<exists>r. collect f cs = Some r"
  using assms
proof (induction cs)
  case Nil
  show ?case by simp
next
  case (Cons a cs)
  from Cons.prems[of a] obtain d where "f a = Some d" by auto
  moreover from Cons.IH Cons.prems obtain r where "collect f cs = Some r" by auto
  ultimately show ?case by simp
qed

lemma descendants_mono:
  "descendants k ts x = Some ds \<Longrightarrow> k \<le> k' \<Longrightarrow> descendants k' ts x = Some ds"
proof (induction k arbitrary: k' x ds)
  case 0
  then show ?case by simp
next
  case (Suc k)
  from Suc.prems(2) obtain j where k': "k' = Suc j" and le: "k \<le> j" by (cases k') auto
  have "collect (\<lambda>c. descendants j ts (t_id c)) (childrenOf ts x) = Some ds"
    using Suc.prems(1) Suc.IH[OF _ le]
    by (auto intro: collect_mono[where f = "\<lambda>c. descendants k ts (t_id c)"])
  with k' show ?case by simp
qed

lemma descendants_unique:
  assumes "descendants k ts x = Some ds" and "descendants k' ts x = Some ds'"
  shows "ds = ds'"
proof -
  from descendants_mono[OF assms(1), of "max k k'"] descendants_mono[OF assms(2), of "max k k'"]
  show ?thesis by simp
qed

lemma childRel_children: "(x, c) \<in> childRel ts \<longleftrightarrow> c \<in> t_id ` set (childrenOf ts x)"
  by (auto simp: childRel_def childrenOf_def)

lemma childRel_exists: "(x, c) \<in> (childRel ts)\<^sup>+ \<Longrightarrow> c \<in> t_id ` set ts"
  by (induction rule: trancl_induct) (auto simp: childRel_def)

lemma descendantIds_unfold:
  "descendantIds ts x =
     t_id ` set (childrenOf ts x) \<union> (\<Union>c \<in> set (childrenOf ts x). descendantIds ts (t_id c))"
proof -
  have "(x, y) \<in> (childRel ts)\<^sup>+ \<longleftrightarrow>
        (x, y) \<in> childRel ts \<or> (\<exists>c. (x, c) \<in> childRel ts \<and> (c, y) \<in> (childRel ts)\<^sup>+)" for y
    by (metis converse_tranclE trancl.r_into_trancl trancl_into_trancl2)
  then show ?thesis
    unfolding descendantIds_def childRel_children by auto
qed

lemma descendants_ids:
  "descendants k ts x = Some ds \<Longrightarrow> t_id ` set ds = descendantIds ts x \<and> set ds \<subseteq> set ts"
proof (induction k arbitrary: x ds)
  case 0
  then show ?case by simp
next
  case (Suc k)
  let ?f = "\<lambda>c. descendants k ts (t_id c)"
  from Suc.prems have c: "collect ?f (childrenOf ts x) = Some ds" by simp
  have each: "t_id ` set (the (?f c)) = descendantIds ts (t_id c) \<and> set (the (?f c)) \<subseteq> set ts"
    if "c \<in> set (childrenOf ts x)" for c
  proof -
    from collect_Some_iff[OF c that] obtain d where "?f c = Some d" by auto
    with Suc.IH[OF this] show ?thesis by simp
  qed
  have kids: "set (childrenOf ts x) \<subseteq> set ts" by (auto simp: childrenOf_def)
  from collect_set[OF c] have s: "set ds = set (childrenOf ts x) \<union> (\<Union>c \<in> set (childrenOf ts x). set (the (?f c)))" .
  have "t_id ` set ds = t_id ` set (childrenOf ts x) \<union> (\<Union>c \<in> set (childrenOf ts x). descendantIds ts (t_id c))"
    unfolding s using each by (auto simp: image_Un image_UN)
  then have "t_id ` set ds = descendantIds ts x" by (simp add: descendantIds_unfold[symmetric])
  moreover have "set ds \<subseteq> set ts" unfolding s using each kids by blast
  ultimately show ?case by simp
qed

lemma descendants_child_shorter:
  assumes "descendants k ts x = Some ds" and "(x, y) \<in> childRel ts"
  shows "\<exists>k' dy. descendants k' ts y = Some dy \<and> length dy < length ds"
proof (cases k)
  case 0
  with assms show ?thesis by simp
next
  case (Suc j)
  from assms(2) obtain c where c: "c \<in> set (childrenOf ts x)" "t_id c = y"
    by (auto simp: childRel_children)
  from assms(1) Suc have "collect (\<lambda>c. descendants j ts (t_id c)) (childrenOf ts x) = Some ds" by simp
  from collect_Some_iff[OF this c(1)] c(2) show ?thesis by auto
qed

lemma descendants_descendant_shorter:
  assumes "(x, y) \<in> (childRel ts)\<^sup>+"
  shows "descendants k ts x = Some ds \<Longrightarrow> \<exists>k' dy. descendants k' ts y = Some dy \<and> length dy < length ds"
  using assms
proof (induction arbitrary: k ds rule: trancl_induct)
  case (base y)
  from base.prems base.hyps show ?case by (rule descendants_child_shorter)
next
  case (step y z)
  from step.IH[OF step.prems] obtain k' dy where
    "descendants k' ts y = Some dy" "length dy < length ds" by blast
  moreover from descendants_child_shorter[OF this(1) step.hyps(2)] obtain k'' dz where
    "descendants k'' ts z = Some dz" "length dz < length dy" by blast
  ultimately show ?case by (intro exI[of _ k''] exI[of _ dz]) simp
qed

lemma descendants_no_cycle:
  assumes "descendants k ts x = Some ds"
  shows "(x, x) \<notin> (childRel ts)\<^sup>+"
proof
  assume "(x, x) \<in> (childRel ts)\<^sup>+"
  from descendants_descendant_shorter[OF this assms] obtain k' d' where
    "descendants k' ts x = Some d'" "length d' < length ds" by blast
  with descendants_unique[OF assms this(1)] show False by simp
qed

lemma finite_descendantIds: "finite (descendantIds ts x)"
proof -
  have "descendantIds ts x \<subseteq> t_id ` set ts"
    by (auto simp: descendantIds_def dest: childRel_exists)
  then show ?thesis by (rule finite_subset) simp
qed

lemma card_descendantIds: "card (descendantIds ts x) \<le> length ts"
proof -
  have "descendantIds ts x \<subseteq> t_id ` set ts"
    by (auto simp: descendantIds_def dest: childRel_exists)
  then have "card (descendantIds ts x) \<le> card (t_id ` set ts)" by (intro card_mono) simp_all
  also have "\<dots> \<le> card (set ts)" by (rule card_image_le) simp
  also have "\<dots> \<le> length ts" by (rule card_length)
  finally show ?thesis .
qed

lemma descendants_terminates:
  assumes "acyclic (childRel ts)"
  shows "card (descendantIds ts x) < k \<Longrightarrow> \<exists>ds. descendants k ts x = Some ds"
proof (induction k arbitrary: x)
  case 0
  then show ?case by simp
next
  case (Suc k)
  have "\<exists>d. descendants k ts (t_id c) = Some d" if c: "c \<in> set (childrenOf ts x)" for c
  proof -
    from c have xc: "(x, t_id c) \<in> childRel ts" by (auto simp: childRel_children)
    have "descendantIds ts (t_id c) \<subseteq> descendantIds ts x"
      using xc by (auto simp: descendantIds_def intro: trancl_into_trancl2)
    moreover have "t_id c \<in> descendantIds ts x" using xc by (auto simp: descendantIds_def)
    moreover have "t_id c \<notin> descendantIds ts (t_id c)"
      using assms by (auto simp: descendantIds_def acyclic_def)
    ultimately have "descendantIds ts (t_id c) \<subset> descendantIds ts x" by blast
    then have "card (descendantIds ts (t_id c)) < card (descendantIds ts x)"
      by (intro psubset_card_mono finite_descendantIds)
    with Suc.prems have "card (descendantIds ts (t_id c)) < k" by simp
    then show ?thesis by (rule Suc.IH)
  qed
  then have "\<exists>r. collect (\<lambda>c. descendants k ts (t_id c)) (childrenOf ts x) = Some r"
    by (rule collect_total)
  then show ?case by simp
qed

lemma collect_segments:
  assumes "collect f cs = Some r" and "b \<in> set r"
  obtains c d where "c \<in> set cs" "f c = Some d" "b = c \<or> b \<in> set d"
proof -
  from collect_set[OF assms(1)] assms(2)
  consider "b \<in> set cs" | c where "c \<in> set cs" "b \<in> set (the (f c))" by auto
  then show ?thesis
  proof cases
    case 1
    from collect_Some_iff[OF assms(1) 1] obtain d where "f b = Some d" by auto
    with 1 that show ?thesis by blast
  next
    case (2 c)
    from collect_Some_iff[OF assms(1) 2(1)] obtain d where "f c = Some d" by auto
    with 2 that show ?thesis by auto
  qed
qed

lemma collect_pairwise:
  assumes r: "collect f cs = Some r"
    and cs: "distinct (map g cs)"
    and inner: "\<And>c d. c \<in> set cs \<Longrightarrow> f c = Some d \<Longrightarrow> sorted_wrt P d \<and> (\<forall>e \<in> set d. P c e)"
    and cross: "\<And>c c' d d' a b. c \<in> set cs \<Longrightarrow> c' \<in> set cs \<Longrightarrow> g c \<noteq> g c' \<Longrightarrow>
                  f c = Some d \<Longrightarrow> f c' = Some d' \<Longrightarrow> a = c \<or> a \<in> set d \<Longrightarrow>
                  b = c' \<or> b \<in> set d' \<Longrightarrow> P a b"
  shows "sorted_wrt P r"
  using r cs inner cross
proof (induction cs arbitrary: r)
  case Nil
  then show ?case by simp
next
  case (Cons c cs)
  from Cons.prems(1) obtain d r' where
    c: "f c = Some d" and r': "collect f cs = Some r'" and r: "r = c # d @ r'"
    by (auto split: option.splits)
  have tail: "sorted_wrt P r'"
  proof (rule Cons.IH[OF r'])
    show "distinct (map g cs)" using Cons.prems(2) by simp
    show "sorted_wrt P d' \<and> (\<forall>e \<in> set d'. P c' e)" if "c' \<in> set cs" "f c' = Some d'" for c' d'
      using Cons.prems(3)[of c' d'] that by simp
    show "P a b" if "c1 \<in> set cs" "c2 \<in> set cs" "g c1 \<noteq> g c2" "f c1 = Some d1" "f c2 = Some d2"
      "a = c1 \<or> a \<in> set d1" "b = c2 \<or> b \<in> set d2" for c1 c2 d1 d2 a b
      using Cons.prems(4)[of c1 c2 d1 d2 a b] that by simp
  qed
  from Cons.prems(3)[of c d] c have seg: "sorted_wrt P d" "\<forall>e \<in> set d. P c e" by simp_all
  have over: "P a b" if a: "a = c \<or> a \<in> set d" and b: "b \<in> set r'" for a b
  proof -
    from collect_segments[OF r' b] obtain c' d' where
      c': "c' \<in> set cs" "f c' = Some d'" "b = c' \<or> b \<in> set d'" by blast
    from Cons.prems(2) c'(1) have "g c \<noteq> g c'" by auto
    from Cons.prems(4)[of c c' d d' a b, OF _ _ this c c'(2) a c'(3)] c'(1) show ?thesis by simp
  qed
  show ?case
    unfolding r using tail seg over by (auto simp: sorted_wrt_append)
qed

section \<open>A forest: every thread has one id and so one parent\<close>

lemma unique_parent:
  assumes "distinct (map t_id ts)" and "(p, c) \<in> childRel ts" and "(p', c) \<in> childRel ts"
  shows "p = p'"
proof -
  from assms(2,3) obtain t t' where
    t: "t \<in> set ts" "t_id t = c" "t_parentId t = Some p" and
    t': "t' \<in> set ts" "t_id t' = c" "t_parentId t' = Some p'"
    by (auto simp: childRel_def)
  from assms(1) have "inj_on t_id (set ts)" by (simp add: distinct_map)
  with t t' have "t = t'" by (auto dest: inj_onD)
  with t t' show ?thesis by simp
qed

lemma common_descendant:
  assumes ids: "distinct (map t_id ts)"
    and a: "(a, y) \<in> (childRel ts)\<^sup>*" and b: "(b, y) \<in> (childRel ts)\<^sup>*"
  shows "(a, b) \<in> (childRel ts)\<^sup>* \<or> (b, a) \<in> (childRel ts)\<^sup>*"
  using a b
proof (induction arbitrary: rule: rtrancl_induct)
  case base
  then show ?case by simp
next
  case (step p y)
  from step.prems show ?case
  proof (cases rule: rtranclE)
    case base
    with step.hyps show ?thesis by auto
  next
    case (step p')
    from unique_parent[OF ids step.hyps(2) step(2)] step(1) have "(b, p) \<in> (childRel ts)\<^sup>*" by simp
    then show ?thesis by (rule step.IH)
  qed
qed

lemma siblings_disjoint:
  assumes ids: "distinct (map t_id ts)"
    and xa: "(x, a) \<in> childRel ts" and xb: "(x, b) \<in> childRel ts" and ne: "a \<noteq> b"
    and nc: "(x, x) \<notin> (childRel ts)\<^sup>+"
    and ya: "(a, y) \<in> (childRel ts)\<^sup>*" and yb: "(b, y) \<in> (childRel ts)\<^sup>*"
  shows False
proof -
  have below: False if "(u, v) \<in> (childRel ts)\<^sup>*" "u \<noteq> v" "(x, u) \<in> childRel ts" "(x, v) \<in> childRel ts"
    for u v
  proof -
    from that(1,2) have "(u, v) \<in> (childRel ts)\<^sup>+" by (simp add: rtrancl_eq_or_trancl)
    then obtain p where "(u, p) \<in> (childRel ts)\<^sup>*" "(p, v) \<in> childRel ts"
      by (auto elim: tranclE intro: trancl_into_rtrancl)
    with unique_parent[OF ids that(4) this(2)] have "(u, x) \<in> (childRel ts)\<^sup>*" by simp
    with that(3) have "(x, x) \<in> (childRel ts)\<^sup>+" by (rule rtrancl_into_trancl2)
    with nc show False by simp
  qed
  from common_descendant[OF ids ya yb] show False
  proof
    assume "(a, b) \<in> (childRel ts)\<^sup>*"
    from below[OF this ne xa xb] show False .
  next
    assume "(b, a) \<in> (childRel ts)\<^sup>*"
    from below[OF this ne[symmetric] xb xa] show False .
  qed
qed

lemma in_segment:
  assumes "descendants k ts (t_id c) = Some d" and "a = c \<or> a \<in> set d"
  shows "(t_id c, t_id a) \<in> (childRel ts)\<^sup>*"
proof -
  from descendants_ids[OF assms(1)] have "t_id ` set d = descendantIds ts (t_id c)" by simp
  with assms(2) have "a = c \<or> t_id a \<in> descendantIds ts (t_id c)" by auto
  then show ?thesis by (auto simp: descendantIds_def intro: trancl_into_rtrancl)
qed

lemma descendants_pairwise:
  assumes ids: "distinct (map t_id ts)"
  shows "descendants k ts x = Some ds \<Longrightarrow>
     sorted_wrt (\<lambda>a b. t_id a \<noteq> t_id b \<and> t_id a \<notin> descendantIds ts (t_id b)) ds"
proof (induction k arbitrary: x ds)
  case 0
  then show ?case by simp
next
  case (Suc k)
  let ?f = "\<lambda>c. descendants k ts (t_id c)"
  let ?P = "\<lambda>a b. t_id a \<noteq> t_id b \<and> t_id a \<notin> descendantIds ts (t_id b)"
  from Suc.prems have c: "collect ?f (childrenOf ts x) = Some ds" by simp
  from descendants_no_cycle[OF Suc.prems] have nc: "(x, x) \<notin> (childRel ts)\<^sup>+" .
  show ?case
  proof (rule collect_pairwise[where g = t_id, OF c])
    show "distinct (map t_id (childrenOf ts x))"
      using ids by (simp add: childrenOf_def distinct_map_filter)
  next
    fix c d assume c: "c \<in> set (childrenOf ts x)" and d: "?f c = Some d"
    from descendants_no_cycle[OF d] have loop: "(t_id c, t_id c) \<notin> (childRel ts)\<^sup>+" .
    have "?P c e" if "e \<in> set d" for e
    proof -
      from in_segment[OF d] that have ce: "(t_id c, t_id e) \<in> (childRel ts)\<^sup>*" by simp
      from descendants_ids[OF d] that have ce': "(t_id c, t_id e) \<in> (childRel ts)\<^sup>+"
        by (auto simp: descendantIds_def)
      from ce' loop have "t_id c \<noteq> t_id e" by auto
      moreover have "t_id c \<notin> descendantIds ts (t_id e)"
      proof
        assume "t_id c \<in> descendantIds ts (t_id e)"
        then have "(t_id e, t_id c) \<in> (childRel ts)\<^sup>+" by (simp add: descendantIds_def)
        with ce' have "(t_id c, t_id c) \<in> (childRel ts)\<^sup>+" by (rule trancl_trans)
        with loop show False by simp
      qed
      ultimately show ?thesis by simp
    qed
    with Suc.IH[OF d] show "sorted_wrt ?P d \<and> (\<forall>e \<in> set d. ?P c e)" by simp
  next
    fix c c' d d' a b
    assume c: "c \<in> set (childrenOf ts x)" and c': "c' \<in> set (childrenOf ts x)"
      and ne: "t_id c \<noteq> t_id c'" and d: "?f c = Some d" and d': "?f c' = Some d'"
      and a: "a = c \<or> a \<in> set d" and b: "b = c' \<or> b \<in> set d'"
    from c c' have xc: "(x, t_id c) \<in> childRel ts" and xc': "(x, t_id c') \<in> childRel ts"
      by (auto simp: childRel_children)
    note sa = in_segment[OF d a] and sb = in_segment[OF d' b]
    have "t_id a \<noteq> t_id b"
    proof
      assume "t_id a = t_id b"
      with sa sb siblings_disjoint[OF ids xc xc' ne nc, of "t_id a"] show False by simp
    qed
    moreover have "t_id a \<notin> descendantIds ts (t_id b)"
    proof
      assume "t_id a \<in> descendantIds ts (t_id b)"
      then have "(t_id b, t_id a) \<in> (childRel ts)\<^sup>*"
        by (auto simp: descendantIds_def intro: trancl_into_rtrancl)
      with sb have "(t_id c', t_id a) \<in> (childRel ts)\<^sup>*" by (rule rtrancl_trans)
      with sa siblings_disjoint[OF ids xc xc' ne nc, of "t_id a"] show False by simp
    qed
    ultimately show "?P a b" by simp
  qed
qed

lemma descendants_distinct:
  assumes "distinct (map t_id ts)" and "descendants k ts x = Some ds"
  shows "distinct (map t_id ds)" and "x \<notin> t_id ` set ds"
proof -
  from descendants_pairwise[OF assms] have "sorted_wrt (\<lambda>a b. t_id a \<noteq> t_id b) ds"
    by (rule sorted_wrt_mono_rel[rotated]) simp
  then show "distinct (map t_id ds)"
    by (simp add: distinct_map inj_on_def sorted_wrt_iff_nth_less distinct_conv_nth)
       (metis in_set_conv_nth nat_neq_iff)
  from descendants_no_cycle[OF assms(2)] descendants_ids[OF assms(2)]
  show "x \<notin> t_id ` set ds" by (auto simp: descendantIds_def)
qed

lemma chain_descendants: "chain ts x cs \<Longrightarrow> descendants (Suc (length cs)) ts x = Some cs"
proof (induction cs arbitrary: x)
  case Nil
  then show ?case by simp
next
  case (Cons c cs)
  then have "childrenOf ts x = [c]" "descendants (Suc (length cs)) ts (t_id c) = Some cs"
    by simp_all
  then show ?case by simp
qed

section \<open>What a cascade leaves\<close>

lemma set_newSet [simp]: "set (newSet xs) = set xs"
  by (induction xs) auto

lemma set_defined [simp]: "set (defined xs) = {x. Some x \<in> set xs}"
  by (induction xs) (auto simp: defined_def List.map_filter_simps split: option.splits)

lemma User_findById_Some: "User_findById a w = Some u \<Longrightarrow> u_id u = a \<and> u \<in> set (users w)"
  by (auto simp: User_findById_def find_Some_iff)

lemma Community_findById_Some:
  "Community_findById a w = Some c \<Longrightarrow> c_id c = a \<and> c \<in> set (communities w)"
  by (auto simp: Community_findById_def find_Some_iff)

lemma p_community_simps [simp]:
  "p_community (onAuthor f d) = p_community d" "p_community (onCommunity g d) = g (p_community d)"
  "p_community (onChildren h d) = p_community d"
  "p_community (hydrate t) = (case t_community t of None \<Rightarrow> Null | Some c \<Rightarrow> Raw c)"
  by (cases d; simp add: hydrate_def)+

lemma author_of_main:
  "refId uv_id (populateUser user_all w (Raw a)) =
     (if a \<in> u_id ` set (users w) then Some a else None)"
proof (cases "User_findById a w")
  case None
  then have "a \<notin> u_id ` set (users w)" by (auto simp: User_findById_def find_None_iff)
  with None show ?thesis by (simp add: populateUser_def refId_def)
next
  case (Some u)
  with User_findById_Some[OF Some] show ?thesis
    by (auto simp: populateUser_def refId_def user_all_def)
qed

lemma community_of_main:
  "refId cv_id (populateCommunity community_all w (case c of None \<Rightarrow> Null | Some i \<Rightarrow> Raw i)) =
     (case c of None \<Rightarrow> None
      | Some i \<Rightarrow> if i \<in> c_id ` set (communities w) then Some i else None)"
proof (cases c)
  case None
  then show ?thesis by (simp add: populateCommunity_def refId_def)
next
  case (Some i)
  show ?thesis
  proof (cases "Community_findById i w")
    case None
    then have "i \<notin> c_id ` set (communities w)"
      by (auto simp: Community_findById_def find_None_iff)
    with None Some show ?thesis by (simp add: populateCommunity_def refId_def)
  next
    case (Some c')
    with Community_findById_Some[OF Some] \<open>c = Some i\<close> show ?thesis
      by (auto simp: populateCommunity_def refId_def community_all_def)
  qed
qed

lemma deleteThread_Inr:
  assumes "deleteThread depth i path w = Some (Inr x, w')"
  shows "\<exists>main ds. Thread_findById i w = Some main \<and>
     descendants depth (threads w) i = Some ds \<and>
     threads w' = filter (\<lambda>t. t_id t \<notin> insert i (t_id ` set ds)) (threads w) \<and>
     users w' = map (\<lambda>u. if u_id u \<in> t_author ` set (main # ds)
                           then u\<lparr>u_threads := filter (\<lambda>j. j \<notin> insert i (t_id ` set ds))
                                                  (u_threads u)\<rparr>
                           else u) (users w) \<and>
     communities w' = map (\<lambda>c. if Some (c_id c) \<in> t_community ` set (main # ds)
                                 then c\<lparr>c_threads := filter (\<lambda>j. j \<notin> insert i (t_id ` set ds))
                                                        (c_threads c)\<rparr>
                                 else c) (communities w)"
proof -
  define ids where "ids = (\<lambda>ds :: thread list. i # map t_id ds)"
  define authors where "authors = (\<lambda>mainThread (ds :: thread list).
      newSet (defined (map (\<lambda>thread. Some (t_author thread)) ds
                       @ [refId uv_id (p_author mainThread)])))"
  define comms where "comms = (\<lambda>mainThread (ds :: thread list).
      newSet (defined (map (\<lambda>thread. t_community thread) ds
                       @ [refId cv_id (p_community mainThread)])))"
  define cascade where "cascade = (\<lambda>mainThread (ds :: thread list).
      andThen (await (command (Thread_deleteMany (ids ds)))) (\<lambda>_.
      andThen (await (command (User_updateMany_pull (authors mainThread ds) (ids ds)))) (\<lambda>_.
      await (command (Community_updateMany_pull (comms mainThread ds) (ids ds))))))"
  define body where "body = (\<lambda>found.
      case found of
        None \<Rightarrow> total (throw (Error ''Thread not found''))
      | Some mainThread \<Rightarrow>
          andThenP (fetchAllChildThreads depth i) (\<lambda>ds. total (cascade mainThread ds)))"
  have unf: "deleteThread depth i path =
      tryCatchP (andThenP (total (await (query (Thread_findById_populate_author_community i)))) body)
        (\<lambda>error. throw (Error (''Failed to delete thread: '' @ message error)))"
    unfolding deleteThread_def body_def cascade_def ids_def authors_def comms_def Let_def ..
  from assms[unfolded unf] have "andThenP (total (await (query (Thread_findById_populate_author_community i)))) body w
      = Some (Inr x, w')"
    by (auto elim!: tryCatchP_Inr_E simp: throw_def)
  then obtain found w1 where
    q: "await (query (Thread_findById_populate_author_community i)) w = (Inr found, w1)" and
    rest: "body found w1 = Some (Inr x, w')"
    by (auto elim!: andThenP_Inr_E total_E)
  from q obtain fs where w1: "w1 = w\<lparr>faults := fs\<rparr>"
    and found: "found = Thread_findById_populate_author_community i w"
    by (auto elim!: await_Inr_E simp: query_def Thread_findById_populate_author_community_def)
  from rest obtain mainThread where m: "found = Some mainThread"
    by (cases found) (auto simp: body_def total_def throw_def)
  with found obtain main where main: "Thread_findById i w = Some main"
    and mt: "mainThread = onCommunity (populateCommunity community_all w)
              (onAuthor (populateUser user_all w) (hydrate main))"
    by (cases "Thread_findById i w") (auto simp: Thread_findById_populate_author_community_def)
  from rest m obtain ds w2 where
    f: "fetchAllChildThreads depth i w1 = Some (Inr ds, w2)" and
    upd: "cascade mainThread ds w2 = (Inr x, w')"
    by (auto elim!: andThenP_Inr_E total_E simp: body_def)
  from fetchAllChildThreads_Inr[OF f] w1 obtain fs2 where
    w2: "w2 = w\<lparr>faults := fs2\<rparr>" and ds: "descendants depth (threads w) i = Some ds"
    by auto
  from upd w2 have
    t': "threads w' = filter (\<lambda>t. t_id t \<notin> set (ids ds)) (threads w)" and
    u': "users w' = map (\<lambda>u. if u_id u \<in> set (authors mainThread ds)
                             then u\<lparr>u_threads := pull (ids ds) (u_threads u)\<rparr> else u) (users w)" and
    c': "communities w' = map (\<lambda>c. if c_id c \<in> set (comms mainThread ds)
                             then c\<lparr>c_threads := pull (ids ds) (c_threads c)\<rparr> else c)
                           (communities w)"
    unfolding cascade_def
    by (auto elim!: andThen_Inr_E await_Inr_E
        simp: command_def Thread_deleteMany_def User_updateMany_pull_def
          Community_updateMany_pull_def)
  have A: "u_id u \<in> set (authors mainThread ds) \<longleftrightarrow> u_id u \<in> t_author ` set (main # ds)"
    if "u \<in> set (users w)" for u
    using that unfolding mt authors_def by (force simp: author_of_main image_iff)
  have C: "c_id c \<in> set (comms mainThread ds) \<longleftrightarrow> Some (c_id c) \<in> t_community ` set (main # ds)"
    if "c \<in> set (communities w)" for c
    using that unfolding mt comms_def
    by (force simp: community_of_main image_iff split: option.splits)
  have ids: "set (ids ds) = insert i (t_id ` set ds)" by (simp add: ids_def)
  show ?thesis
  proof (intro exI[of _ main] exI[of _ ds] conjI)
    show "Thread_findById i w = Some main" by (rule main)
    show "descendants depth (threads w) i = Some ds" by (rule ds)
    show "threads w' = filter (\<lambda>t. t_id t \<notin> insert i (t_id ` set ds)) (threads w)"
      unfolding t' ids ..
    show "users w' = map (\<lambda>u. if u_id u \<in> t_author ` set (main # ds)
                           then u\<lparr>u_threads := filter (\<lambda>j. j \<notin> insert i (t_id ` set ds))
                                                  (u_threads u)\<rparr>
                           else u) (users w)"
      unfolding u' pull_def ids by (rule map_cong) (simp_all add: A)
    show "communities w' = map (\<lambda>c. if Some (c_id c) \<in> t_community ` set (main # ds)
                                 then c\<lparr>c_threads := filter (\<lambda>j. j \<notin> insert i (t_id ` set ds))
                                                        (c_threads c)\<rparr>
                                 else c) (communities w)"
      unfolding c' pull_def ids by (rule map_cong) (simp_all add: C)
  qed
qed

lemma deleteThread_no_faults:
  assumes "faults w = []" and "Thread_findById i w = Some main"
    and "descendants depth (threads w) i = Some ds"
  shows "\<exists>w'. deleteThread depth i path w = Some (Inr (), w')"
  using assms
  by (simp add: deleteThread_def tryCatchP_def andThenP_def andThen_def total_def await_no_faults
      query_def command_def Thread_findById_populate_author_community_def
      fetchAllChildThreads_no_faults Let_def Thread_deleteMany_def User_updateMany_pull_def
      Community_updateMany_pull_def)

section \<open>Termination and order of the traversal\<close>

lemma await_query_frame:
  assumes "await (query f) w = (r, w')"
  shows "\<exists>fs. w' = w\<lparr>faults := fs\<rparr>"
proof (cases "faults w")
  case Nil
  with assms have "w' = w" by (simp add: await_def query_def)
  moreover have "w\<lparr>faults := faults w\<rparr> = w" by simp
  ultimately show ?thesis by metis
next
  case (Cons a fs)
  with assms have "w' = w\<lparr>faults := fs\<rparr>"
    by (cases a) (auto simp: await_def query_def)
  then show ?thesis by blast
qed

lemma forEach_frame:
  assumes step: "\<And>c acc v r v'. body c acc v = Some (r, v') \<Longrightarrow> \<exists>fs. v' = v\<lparr>faults := fs\<rparr>"
  shows "forEach body cs acc w = Some (r, w') \<Longrightarrow> \<exists>fs. w' = w\<lparr>faults := fs\<rparr>"
proof (induction cs arbitrary: acc w)
  case Nil
  then have "w' = w" by (simp add: total_def return_def)
  moreover have "w\<lparr>faults := faults w\<rparr> = w" by simp
  ultimately show ?case by metis
next
  case (Cons c cs)
  show ?case
  proof (cases "body c acc w")
    case None
    with Cons.prems show ?thesis by (simp add: andThenP_def)
  next
    case (Some a)
    obtain r1 w1 where a: "a = (r1, w1)" by (cases a)
    from step[of c acc w r1 w1] Some a obtain fs1 where w1: "w1 = w\<lparr>faults := fs1\<rparr>" by auto
    show ?thesis
    proof (cases r1)
      case (Inl e)
      with Cons.prems Some a w1 show ?thesis by (auto simp: andThenP_def)
    next
      case (Inr acc1)
      with Cons.prems Some a have "forEach body cs acc1 w1 = Some (r, w')"
        by (simp add: andThenP_def)
      from Cons.IH[OF this] w1 show ?thesis by auto
    qed
  qed
qed

lemma fetchAllChildThreads_frame:
  "fetchAllChildThreads k x w = Some (r, w') \<Longrightarrow> \<exists>fs. w' = w\<lparr>faults := fs\<rparr>"
proof (induction k arbitrary: x w r w')
  case 0
  then show ?case by simp
next
  case (Suc k)
  let ?body = "\<lambda>childThread descendantThreads.
            andThenP (fetchAllChildThreads k (t_id childThread)) (\<lambda>descendants.
            total (return (descendantThreads @ childThread # descendants)))"
  have step: "\<exists>fs. v' = v\<lparr>faults := fs\<rparr>" if "?body c acc v = Some (r, v')" for c acc v r v'
    using that Suc.IH[of "t_id c" v]
    by (auto simp: andThenP_def total_def return_def split: option.splits prod.splits sum.splits)
  obtain r1 w1 where q: "await (query (Thread_find_parentId x)) w = (r1, w1)"
    by (cases "await (query (Thread_find_parentId x)) w")
  have w1: "\<exists>fs. w1 = w\<lparr>faults := fs\<rparr>"
    using q by (rule await_query_frame)
  show ?case
  proof (cases r1)
    case (Inl e)
    with Suc.prems q w1 show ?thesis by (auto simp: andThenP_def total_def)
  next
    case (Inr cs)
    with Suc.prems q have "forEach ?body cs [] w1 = Some (r, w')"
      by (simp add: andThenP_def total_def)
    from forEach_frame[of ?body, OF step this] w1 show ?thesis by auto
  qed
qed

lemma forEach_terminates:
  assumes step: "\<And>c acc v. c \<in> set cs \<Longrightarrow> threads v = ts \<Longrightarrow> body c acc v \<noteq> None"
    and frame: "\<And>c acc v r v'. body c acc v = Some (r, v') \<Longrightarrow> threads v' = threads v"
  shows "threads w = ts \<Longrightarrow> forEach body cs acc w \<noteq> None"
  using step
proof (induction cs arbitrary: acc w)
  case Nil
  show ?case by (simp add: total_def)
next
  case (Cons c cs)
  from Cons.prems(2)[of c w acc] Cons.prems(1) obtain r1 w1 where
    b: "body c acc w = Some (r1, w1)" by auto
  from frame[OF b] Cons.prems(1) have w1: "threads w1 = ts" by simp
  show ?case
  proof (cases r1)
    case (Inl e)
    with b show ?thesis by (simp add: andThenP_def)
  next
    case (Inr acc1)
    from Cons.IH[OF w1, of acc1] Cons.prems(2) have "forEach body cs acc1 w1 \<noteq> None" by simp
    with b Inr show ?thesis by (simp add: andThenP_def)
  qed
qed

lemma fetchAllChildThreads_terminates:
  assumes "acyclic (childRel ts)"
  shows "threads w = ts \<Longrightarrow> card (descendantIds ts x) < k \<Longrightarrow> fetchAllChildThreads k x w \<noteq> None"
proof (induction k arbitrary: x w)
  case 0
  then show ?case by simp
next
  case (Suc k)
  let ?body = "\<lambda>childThread descendantThreads.
            andThenP (fetchAllChildThreads k (t_id childThread)) (\<lambda>descendants.
            total (return (descendantThreads @ childThread # descendants)))"
  have frame: "threads v' = threads v" if "?body c acc v = Some (r, v')" for c acc v r v'
    using that fetchAllChildThreads_frame[of k "t_id c" v]
    by (auto simp: andThenP_def total_def return_def split: option.splits prod.splits sum.splits)
  have step: "?body c acc v \<noteq> None" if c: "c \<in> set (childrenOf ts x)" and v: "threads v = ts"
    for c acc v
  proof -
    from c have xc: "(x, t_id c) \<in> childRel ts" by (auto simp: childRel_children)
    have "descendantIds ts (t_id c) \<subseteq> descendantIds ts x"
      using xc by (auto simp: descendantIds_def intro: trancl_into_trancl2)
    moreover have "t_id c \<in> descendantIds ts x" using xc by (auto simp: descendantIds_def)
    moreover have "t_id c \<notin> descendantIds ts (t_id c)"
      using assms by (auto simp: descendantIds_def acyclic_def)
    ultimately have "descendantIds ts (t_id c) \<subset> descendantIds ts x" by blast
    then have "card (descendantIds ts (t_id c)) < card (descendantIds ts x)"
      by (intro psubset_card_mono finite_descendantIds)
    with Suc.prems have "card (descendantIds ts (t_id c)) < k" by simp
    from Suc.IH[OF v this] show ?thesis
      by (auto simp: andThenP_def total_def split: option.splits prod.splits sum.splits)
  qed
  obtain r1 w1 where q: "await (query (Thread_find_parentId x)) w = (r1, w1)"
    by (cases "await (query (Thread_find_parentId x)) w")
  show ?case
  proof (cases r1)
    case (Inl e)
    with q show ?thesis by (simp add: andThenP_def total_def)
  next
    case (Inr cs)
    with q Suc.prems(1) have "threads w1 = ts" "cs = childrenOf ts x"
      by (auto elim!: await_Inr_E simp: query_def Thread_find_parentId_def childrenOf_def)
    with forEach_terminates[of cs ts ?body w1 "[]", OF step frame] have "forEach ?body cs [] w1 \<noteq> None"
      by simp
    with q Inr show ?thesis by (simp add: andThenP_def total_def)
  qed
qed

lemma parents_smaller_acyclic:
  assumes "\<And>t p. t \<in> set ts \<Longrightarrow> t_parentId t = Some p \<Longrightarrow> p < t_id t"
  shows "acyclic (childRel ts)"
proof -
  have "acyclic ((childRel ts)\<inverse>)"
    by (rule acyclicI_order[where f = "\<lambda>n. n"]) (auto simp: childRel_def dest: assms)
  then show ?thesis by simp
qed

lemma descendants_later:
  assumes ids: "distinct (map t_id ts)" and ds: "descendants k ts x = Some ds"
    and i: "i < length ds" and c: "c \<in> descendantIds ts (t_id (ds ! i))"
  shows "\<exists>j. i < j \<and> j < length ds \<and> t_id (ds ! j) = c"
proof -
  note all = descendants_ids[OF ds]
  from i all have xi: "(x, t_id (ds ! i)) \<in> (childRel ts)\<^sup>+"
    by (auto simp: descendantIds_def dest: nth_mem)
  with c have "(x, c) \<in> (childRel ts)\<^sup>+" by (auto simp: descendantIds_def)
  with all have "c \<in> t_id ` set ds" by (auto simp: descendantIds_def)
  then obtain j where j: "j < length ds" "t_id (ds ! j) = c"
    by (auto simp: in_set_conv_nth)
  from descendants_descendant_shorter[OF xi ds] obtain k' d' where
    "descendants k' ts (t_id (ds ! i)) = Some d'" by blast
  from descendants_no_cycle[OF this] c j have "j \<noteq> i" by (auto simp: descendantIds_def)
  moreover have "\<not> j < i"
  proof
    assume "j < i"
    with descendants_pairwise[OF ids ds] i have "t_id (ds ! j) \<notin> descendantIds ts (t_id (ds ! i))"
      by (simp add: sorted_wrt_iff_nth_less)
    with c j show False by simp
  qed
  ultimately show ?thesis using j by (intro exI[of _ j]) auto
qed

lemma descendants_docs:
  assumes ids: "distinct (map t_id ts)" and ds: "descendants k ts x = Some ds"
  shows "set ds = {t \<in> set ts. t_id t \<in> descendantIds ts x}"
proof -
  note all = descendants_ids[OF ds]
  from ids have inj: "inj_on t_id (set ts)" by (simp add: distinct_map)
  show ?thesis
  proof (intro equalityI subsetI)
    fix t assume "t \<in> set ds"
    with all show "t \<in> {t \<in> set ts. t_id t \<in> descendantIds ts x}" by auto
  next
    fix t assume "t \<in> {t \<in> set ts. t_id t \<in> descendantIds ts x}"
    then have t: "t \<in> set ts" "t_id t \<in> descendantIds ts x" by simp_all
    from t(2) all have "t_id t \<in> t_id ` set ds" by simp
    with t(1) obtain t' where "t' \<in> set ds" "t_id t' = t_id t" "t \<in> set ts"
      by (auto simp: image_iff)
    with all inj have "t' = t" by (auto dest: inj_onD)
    with \<open>t' \<in> set ds\<close> show "t \<in> set ds" by simp
  qed
qed

lemma deleted_count:
  assumes ids: "distinct (map t_id ts)" and ds: "descendants k ts i = Some ds"
    and i: "i \<in> t_id ` set ts"
  shows "length (filter (\<lambda>t. t_id t \<notin> insert i (t_id ` set ds)) ts) + (length ds + 1) = length ts"
proof -
  let ?D = "insert i (t_id ` set ds)"
  from descendants_ids[OF ds] i have sub: "?D \<subseteq> t_id ` set ts" by auto
  from descendants_distinct[OF ids ds] have d: "distinct (i # map t_id ds)" by simp
  have "length (filter (\<lambda>t. t_id t \<in> ?D) ts) = length (filter (\<lambda>j. j \<in> ?D) (map t_id ts))"
    by (simp add: filter_map o_def)
  also have "\<dots> = card ({j. j \<in> ?D} \<inter> set (map t_id ts))"
    using ids by (rule distinct_length_filter)
  also have "{j. j \<in> ?D} \<inter> set (map t_id ts) = ?D" using sub by auto
  also have "?D = set (i # map t_id ds)" by simp
  also have "card (set (i # map t_id ds)) = length (i # map t_id ds)" using d by (rule distinct_card)
  finally have "length (filter (\<lambda>t. t_id t \<in> ?D) ts) = length ds + 1" by simp
  with sum_length_filter_compl[of "\<lambda>t. t_id t \<in> ?D" ts] show ?thesis by simp
qed

lemma find_filter_Some:
  "find P xs = Some y \<Longrightarrow> Q y \<Longrightarrow> find P (filter Q xs) = Some y"
  by (induction xs) (auto split: if_splits)

lemma deletedIds_descendants:
  "descendants k ts i = Some ds \<Longrightarrow> insert i (t_id ` set ds) = deletedIds i ts"
  by (simp add: deletedIds_def descendants_ids)

lemma forum_ids: "distinct (map t_id (threads forum))"
  by (simp add: forum_def post_def reply_def)

lemma forum_acyclic: "acyclic (childRel (threads forum))"
  by (rule parents_smaller_acyclic) (auto simp: forum_def post_def reply_def)

section \<open>Claims\<close>

text \<open>
  C3, as stated, fails: thread 9 is not in the forum, and \<open>fetchThreadById\<close> on it
  returns \<open>null\<close> like any successful call; it does not throw.
\<close>

theorem fetchThreadById_missing_is_null:
  "9 \<notin> t_id ` set (threads forum) \<and> fetchThreadById 9 forum = (Inr None, forum)"
proof
  show "9 \<notin> t_id ` set (threads forum)" by code_simp
  show "fetchThreadById 9 forum = (Inr None, forum)" by code_simp
qed

text \<open>
  C3, amended: for an id that is not in the Thread store, \<open>fetchThreadById\<close> returns
  \<open>null\<close> and changes nothing when the round trip goes through; when the round trip
  fails it prints the cause to the console and throws the error with the fixed message
  \<open>Unable to fetch thread\<close>.
\<close>

theorem fetchThreadById_absent:
  assumes "i \<notin> t_id ` set (threads w)"
  shows "fetchThreadById i w =
     (case faults w of
        [] \<Rightarrow> (Inr None, w)
      | None # fs \<Rightarrow> (Inr None, w\<lparr>faults := fs\<rparr>)
      | Some m # fs \<Rightarrow>
          (Inl (Error ''Unable to fetch thread''),
           w\<lparr>faults := fs, console := console w @ [(''Error while fetching thread:'', Error m)]\<rparr>))"
proof -
  have "find (\<lambda>t. t_id t = i) (threads w) = None"
    using assms by (auto simp: find_None_iff)
  then show ?thesis
    by (simp add: fetchThreadById_def tryCatch_def andThen_def await_def query_def return_def
        throw_def console_error_def threadQuery_def Thread_findById_def
        split: list.splits option.splits)
qed

text \<open>
  C3, amended, at thread 9 of the forum during an outage.
\<close>

theorem fetchThreadById_absent_witness:
  "9 \<notin> t_id ` set (threads outage) \<and>
   fetchThreadById 9 outage =
     (Inl (Error ''Unable to fetch thread''),
      outage\<lparr>faults := [], console := [(''Error while fetching thread:'', Error ''boom'')]\<rparr>)"
proof -
  have absent: "9 \<notin> t_id ` set (threads outage)" by code_simp
  have "faults outage = [Some ''boom'']" "console outage = []"
    by (simp_all add: outage_def forum_def)
  with fetchThreadById_absent[OF absent] absent show ?thesis by simp
qed




text \<open>
  C7: for a page number of at least 1 and a positive page size, a call of \<open>fetchPosts\<close>
  that returns gives the window of that page, at offset \<open>(page - 1) * pageSize\<close> and of
  at most \<open>pageSize\<close> threads, of the threads without \<open>parentId\<close> ordered by \<open>createdAt\<close>
  descending, and \<open>isNext\<close> says whether top-level threads exist beyond the window;
  with no failure scheduled the call returns. With 25 top-level threads, page 2 of
  size 10 is the threads 11 to 20 with \<open>isNext\<close>, page 3 the threads 21 to 25 without.
\<close>

theorem fetchPosts_page:
  assumes "1 \<le> pageNumber" and "0 < pageSize"
  shows "(faults w = [] \<longrightarrow> (\<exists>r. fetchPosts pageNumber pageSize w = (Inr r, w))) \<and>
     (\<forall>posts isNext w'. fetchPosts pageNumber pageSize w = (Inr (posts, isNext), w') \<longrightarrow>
        map p_id posts =
          map t_id (take (nat pageSize) (drop (nat ((pageNumber - 1) * pageSize))
                                            (sortDesc (topLevel w)))) \<and>
        (\<forall>d \<in> set posts. p_parentId d = None) \<and>
        (isNext \<longleftrightarrow> nat ((pageNumber - 1) * pageSize) + nat pageSize < length (topLevel w)) \<and>
        (length (topLevel w) = 25 \<and> pageNumber = 2 \<and> pageSize = 10 \<longrightarrow>
           map p_id posts = map t_id (take 10 (drop 10 (sortDesc (topLevel w)))) \<and>
           length posts = 10 \<and> isNext) \<and>
        (length (topLevel w) = 25 \<and> pageNumber = 3 \<and> pageSize = 10 \<longrightarrow>
           map p_id posts = map t_id (drop 20 (sortDesc (topLevel w))) \<and>
           length posts = 5 \<and> \<not> isNext)) \<and>
     sorted_wrt (\<lambda>a b. t_createdAt b \<le> t_createdAt a) (sortDesc (topLevel w)) \<and>
     mset (sortDesc (topLevel w)) = mset (filter (\<lambda>t. t_parentId t = None) (threads w))"
proof (intro conjI allI impI)
  from assms have pos: "0 \<le> (pageNumber - 1) * pageSize" by simp
  show "\<exists>r. fetchPosts pageNumber pageSize w = (Inr r, w)" if "faults w = []"
    using that pos by (rule fetchPosts_no_faults)
  show "sorted_wrt (\<lambda>a b. t_createdAt b \<le> t_createdAt a) (sortDesc (topLevel w))"
    by (rule sorted_sortDesc)
  show "mset (sortDesc (topLevel w)) = mset (filter (\<lambda>t. t_parentId t = None) (threads w))"
    by (simp add: mset_sortDesc topLevel_def)
  fix posts isNext w'
  assume run: "fetchPosts pageNumber pageSize w = (Inr (posts, isNext), w')"
  let ?feed = "sortDesc (topLevel w)"
  let ?off = "nat ((pageNumber - 1) * pageSize)"
  from fetchPosts_Inr[OF run] assms(2)
  have ids: "map p_id posts = map t_id (take (nat pageSize) (drop ?off ?feed))"
    and top: "\<forall>d \<in> set posts. p_parentId d = None"
    and nxt: "isNext = (int (length (topLevel w)) > (pageNumber - 1) * pageSize + int (length posts))"
    by (simp_all add: limitDocs_def)
  show "map p_id posts = map t_id (take (nat pageSize) (drop ?off ?feed))" by (rule ids)
  show "\<forall>d \<in> set posts. p_parentId d = None" by (rule top)
  from ids have len: "length posts = min (nat pageSize) (length (topLevel w) - ?off)"
    using length_map[of p_id posts] by (simp add: length_sortDesc)
  define k where "k = ?off"
  from pos have off: "(pageNumber - 1) * pageSize = int k" by (simp add: k_def)
  from nxt len off assms(2) have "isNext \<longleftrightarrow> k + nat pageSize < length (topLevel w)"
    unfolding k_def[symmetric] by (auto simp: min_def)
  then show next_iff: "isNext \<longleftrightarrow> ?off + nat pageSize < length (topLevel w)"
    by (simp add: k_def)
  {
    assume 25: "length (topLevel w) = 25 \<and> pageNumber = 2 \<and> pageSize = 10"
    with ids show "map p_id posts = map t_id (take 10 (drop 10 ?feed))" by simp
    from 25 len show "length posts = 10" by simp
    from 25 next_iff show isNext by simp
  }
  {
    assume 25: "length (topLevel w) = 25 \<and> pageNumber = 3 \<and> pageSize = 10"
    with ids show "map p_id posts = map t_id (drop 20 ?feed)" by (simp add: length_sortDesc)
    from 25 len show "length posts = 5" by simp
    from 25 next_iff show "\<not> isNext" by simp
  }
qed

text \<open>
  C7 on a store of 25 posts and one reply, the post with id \<open>i\<close> created at time \<open>i\<close>.
\<close>

theorem fetchPosts_page_witness:
  "(1::int) \<le> 2 \<and> (0::int) < 10 \<and> faults feed25 = [] \<and> length (topLevel feed25) = 25 \<and>
   (\<exists>posts. fetchPosts 2 10 feed25 = (Inr (posts, True), feed25) \<and>
      map p_id posts = [15, 14, 13, 12, 11, 10, 9, 8, 7, 6]) \<and>
   (\<exists>posts. fetchPosts 3 10 feed25 = (Inr (posts, False), feed25) \<and>
      map p_id posts = [5, 4, 3, 2, 1])"
proof -
  have nf: "faults feed25 = []" by (simp add: feed25_def)
  have n: "length (topLevel feed25) = 25" by code_simp
  have w2: "map t_id (take 10 (drop 10 (sortDesc (topLevel feed25)))) =
              [15, 14, 13, 12, 11, 10, 9, 8, 7, 6]"
    by code_simp
  have w3: "map t_id (drop 20 (sortDesc (topLevel feed25))) = [5, 4, 3, 2, 1]"
    by code_simp
  have h2: "(1::int) \<le> 2" and h3: "(1::int) \<le> 3" and h10: "(0::int) < 10" by simp_all
  note p2 = fetchPosts_page[OF h2 h10, of feed25]
  note p3 = fetchPosts_page[OF h3 h10, of feed25]
  from p2 nf obtain r where "fetchPosts 2 10 feed25 = (Inr r, feed25)" by blast
  then obtain posts2 next2 where
    r2: "fetchPosts 2 10 feed25 = (Inr (posts2, next2), feed25)" by (cases r) auto
  from p3 nf obtain r' where "fetchPosts 3 10 feed25 = (Inr r', feed25)" by blast
  then obtain posts3 next3 where
    r3: "fetchPosts 3 10 feed25 = (Inr (posts3, next3), feed25)" by (cases r') auto
  from p2 r2 have "length (topLevel feed25) = 25 \<and> (2::int) = 2 \<and> (10::int) = 10 \<longrightarrow>
           map p_id posts2 = map t_id (take 10 (drop 10 (sortDesc (topLevel feed25)))) \<and>
           length posts2 = 10 \<and> next2"
    by blast
  with n w2 have c2: "next2" "map p_id posts2 = [15, 14, 13, 12, 11, 10, 9, 8, 7, 6]"
    by simp_all
  from p3 r3 have "length (topLevel feed25) = 25 \<and> (3::int) = 3 \<and> (10::int) = 10 \<longrightarrow>
           map p_id posts3 = map t_id (drop 20 (sortDesc (topLevel feed25))) \<and>
           length posts3 = 5 \<and> \<not> next3"
    by blast
  with n w3 have c3: "\<not> next3" "map p_id posts3 = [5, 4, 3, 2, 1]"
    by simp_all
  from r2 c2 have e2: "\<exists>posts. fetchPosts 2 10 feed25 = (Inr (posts, True), feed25) \<and>
      map p_id posts = [15, 14, 13, 12, 11, 10, 9, 8, 7, 6]" by simp
  from r3 c3 have e3: "\<exists>posts. fetchPosts 3 10 feed25 = (Inr (posts, False), feed25) \<and>
      map p_id posts = [5, 4, 3, 2, 1]" by simp
  from nf n e2 e3 show ?thesis by simp
qed

text \<open>
  C6: for the id of a stored thread, post or comment, \<open>fetchThreadById\<close> returns when no
  failure is scheduled, and whenever it returns it returns that thread, with its id,
  text, \<open>parentId\<close> and its author resolved. In the thread returned, every stored reply
  of the thread is embedded as a document with its author resolved (to the selected
  fields of the User, or to \<open>null\<close> when there is no such User), every stored reply of
  such a reply is embedded likewise, and the \<open>children\<close> of the replies of replies are
  left as they are stored: raw references. So the third and deeper levels of a reply
  chain come back unresolved.
\<close>

theorem fetchThreadById_two_levels:
  "(\<forall>t. Thread_findById i w = Some t \<longrightarrow>
      (faults w = [] \<longrightarrow> (\<exists>d. fetchThreadById i w = (Inr (Some d), w))) \<and>
      (\<forall>r w'. fetchThreadById i w = (Inr r, w') \<longrightarrow>
         (\<exists>d. r = Some d \<and> p_id d = i \<and> p_text d = t_text t \<and>
            p_parentId d = t_parentId t \<and>
            p_author d = (case User_findById (t_author t) w of
                            None \<Rightarrow> Null | Some u \<Rightarrow> Populated (user_id_name_image u))))) \<and>
   (\<forall>d w'. fetchThreadById i w = (Inr (Some d), w') \<longrightarrow>
      (\<exists>t. Thread_findById i w = Some t \<and>
        (\<forall>j \<in> set (t_children t). \<forall>t1. Thread_findById j w = Some t1 \<longrightarrow>
           (\<exists>c1. Populated c1 \<in> set (p_children d) \<and> p_id c1 = j)) \<and>
        (\<forall>r1 \<in> set (p_children d). \<exists>c1 t1.
           r1 = Populated c1 \<and> p_id c1 \<in> set (t_children t) \<and>
           Thread_findById (p_id c1) w = Some t1 \<and>
           p_author c1 = (case User_findById (t_author t1) w of
                            None \<Rightarrow> Null | Some u \<Rightarrow> Populated (user_id_name_image u)) \<and>
           (\<forall>j \<in> set (t_children t1). \<forall>t2. Thread_findById j w = Some t2 \<longrightarrow>
              (\<exists>c2. Populated c2 \<in> set (p_children c1) \<and> p_id c2 = j)) \<and>
           (\<forall>r2 \<in> set (p_children c1). \<exists>c2 t2.
              r2 = Populated c2 \<and> p_id c2 \<in> set (t_children t1) \<and>
              Thread_findById (p_id c2) w = Some t2 \<and>
              p_author c2 = (case User_findById (t_author t2) w of
                               None \<Rightarrow> Null | Some u \<Rightarrow> Populated (user_id_name_image u)) \<and>
              p_children c2 = map Raw (t_children t2)))))"
proof (intro conjI allI impI)
  fix t assume t: "Thread_findById i w = Some t"
  show "\<exists>d. fetchThreadById i w = (Inr (Some d), w)" if "faults w = []"
    using fetchThreadById_existing(1)[OF t that] .
  show "\<exists>d. r = Some d \<and> p_id d = i \<and> p_text d = t_text t \<and>
            p_parentId d = t_parentId t \<and>
            p_author d = (case User_findById (t_author t) w of
                            None \<Rightarrow> Null | Some u \<Rightarrow> Populated (user_id_name_image u))"
    if "fetchThreadById i w = (Inr r, w')" for r w'
    using fetchThreadById_existing(2)[OF t that] .
next
  fix d w' assume "fetchThreadById i w = (Inr (Some d), w')"
  then show "\<exists>t. Thread_findById i w = Some t \<and>
     (\<forall>j \<in> set (t_children t). \<forall>t1. Thread_findById j w = Some t1 \<longrightarrow>
        (\<exists>c1. Populated c1 \<in> set (p_children d) \<and> p_id c1 = j)) \<and>
     (\<forall>r1 \<in> set (p_children d). \<exists>c1 t1.
        r1 = Populated c1 \<and> p_id c1 \<in> set (t_children t) \<and>
        Thread_findById (p_id c1) w = Some t1 \<and>
        p_author c1 = (case User_findById (t_author t1) w of
                         None \<Rightarrow> Null | Some u \<Rightarrow> Populated (user_id_name_image u)) \<and>
        (\<forall>j \<in> set (t_children t1). \<forall>t2. Thread_findById j w = Some t2 \<longrightarrow>
           (\<exists>c2. Populated c2 \<in> set (p_children c1) \<and> p_id c2 = j)) \<and>
        (\<forall>r2 \<in> set (p_children c1). \<exists>c2 t2.
           r2 = Populated c2 \<and> p_id c2 \<in> set (t_children t1) \<and>
           Thread_findById (p_id c2) w = Some t2 \<and>
           p_author c2 = (case User_findById (t_author t2) w of
                            None \<Rightarrow> Null | Some u \<Rightarrow> Populated (user_id_name_image u)) \<and>
           p_children c2 = map Raw (t_children t2)))"
    by (rule fetchThreadById_levels)
qed

text \<open>
  C6 at post 1 of the forum, whose reply chain is 1, 2, 4, 5: the reply 2 and its reply
  4 are embedded, the reply 5 of 4 is the raw reference. The comment 2, fetched by its
  own id, is returned as well.
\<close>

theorem fetchThreadById_two_levels_witness:
  "fetchThreadById 1 forum = (Inr (Some thread1_fetched), forum) \<and>
   Populated thread2_fetched \<in> set (p_children thread1_fetched) \<and>
   Populated thread4_fetched \<in> set (p_children thread2_fetched) \<and>
   p_children thread4_fetched = [Raw 5] \<and>
   (\<exists>t2. Thread_findById (p_id thread4_fetched) forum = Some t2 \<and>
      p_children thread4_fetched = map Raw (t_children t2)) \<and>
   Thread_findById 2 forum = Some (reply 2 101 1 [4]) \<and>
   (\<exists>d. fetchThreadById 2 forum = (Inr (Some d), forum))"
proof -
  have run: "fetchThreadById 1 forum = (Inr (Some thread1_fetched), forum)"
    by code_simp
  have stored: "Thread_findById 2 forum = Some (reply 2 101 1 [4])" by code_simp
  have nf: "faults forum = []" by (simp add: forum_def)
  note returned = fetchThreadById_two_levels[of 2 forum, THEN conjunct1, rule_format,
                    THEN conjunct1, rule_format, OF stored nf]
  have in1: "Populated thread2_fetched \<in> set (p_children thread1_fetched)"
    by (simp add: thread1_fetched_def)
  have in2: "Populated thread4_fetched \<in> set (p_children thread2_fetched)"
    by (simp add: thread2_fetched_def)
  have raw: "p_children thread4_fetched = [Raw 5]"
    by (simp add: thread4_fetched_def)
  from fetchThreadById_two_levels[THEN conjunct2, rule_format, OF run] obtain t :: thread where
    L1: "\<forall>r1 \<in> set (p_children thread1_fetched). \<exists>c1 t1.
        r1 = Populated c1 \<and> p_id c1 \<in> set (t_children t) \<and>
        Thread_findById (p_id c1) forum = Some t1 \<and>
        p_author c1 = (case User_findById (t_author t1) forum of
                         None \<Rightarrow> Null | Some u \<Rightarrow> Populated (user_id_name_image u)) \<and>
        (\<forall>j \<in> set (t_children t1). \<forall>t2. Thread_findById j forum = Some t2 \<longrightarrow>
           (\<exists>c2. Populated c2 \<in> set (p_children c1) \<and> p_id c2 = j)) \<and>
        (\<forall>r2 \<in> set (p_children c1). \<exists>c2 t2.
           r2 = Populated c2 \<and> p_id c2 \<in> set (t_children t1) \<and>
           Thread_findById (p_id c2) forum = Some t2 \<and>
           p_author c2 = (case User_findById (t_author t2) forum of
                            None \<Rightarrow> Null | Some u \<Rightarrow> Populated (user_id_name_image u)) \<and>
           p_children c2 = map Raw (t_children t2))"
    by blast
  from L1[THEN bspec, OF in1] obtain c1 where
    c1: "Populated thread2_fetched = Populated c1" and
    L2: "\<forall>r2 \<in> set (p_children c1). \<exists>c2 t2.
           r2 = Populated c2 \<and>
           Thread_findById (p_id c2) forum = Some t2 \<and>
           p_children c2 = map Raw (t_children t2)"
    by fastforce
  from c1 have "c1 = thread2_fetched" by simp
  with L2 in2 obtain c2 t2 where
    "Populated thread4_fetched = Populated c2" "Thread_findById (p_id c2) forum = Some t2"
    "p_children c2 = map Raw (t_children t2)"
    by fastforce
  then have "\<exists>t2. Thread_findById (p_id thread4_fetched) forum = Some t2 \<and>
      p_children thread4_fetched = map Raw (t_children t2)" by auto
  with run in1 in2 raw stored returned show ?thesis by - (intro conjI, assumption+)
qed

text \<open>
  C9: a call of \<open>createThread\<close> that returns has appended one Thread to the store, with
  a new id, the given text and author, no \<open>parentId\<close> and no \<open>children\<close>; the id is
  appended to the \<open>threads\<close> of the User with the author's id, and to the \<open>threads\<close>
  of a Community exactly when the community identifier resolved to one; and a
  \<open>fetchThreadById\<close> on the new id that returns right after gives that thread, with the
  text, no \<open>parentId\<close>, no \<open>children\<close> and the author resolved.
\<close>

theorem createThread_inserts:
  assumes "createThread p w = (Inr x, w')"
  shows "\<exists>new. threads w' = threads w @ [new] \<and>
     t_id new = nextOid w \<and> t_id new \<notin> t_id ` set (threads w) \<and>
     t_text new = pr_text p \<and> t_author new = pr_author p \<and>
     t_parentId new = None \<and> t_children new = [] \<and>
     t_community new = Community_findOne_id (pr_communityId p) w \<and>
     users w' = map (\<lambda>u. if u_id u = pr_author p
                           then u\<lparr>u_threads := u_threads u @ [t_id new]\<rparr> else u) (users w) \<and>
     (Community_findOne_id (pr_communityId p) w = None \<longrightarrow> communities w' = communities w) \<and>
     (\<forall>cid. Community_findOne_id (pr_communityId p) w = Some cid \<longrightarrow>
        communities w' = map (\<lambda>c. if c_id c = cid
                                    then c\<lparr>c_threads := c_threads c @ [t_id new]\<rparr> else c)
                             (communities w)) \<and>
     (\<forall>r w''. fetchThreadById (t_id new) w' = (Inr r, w'') \<longrightarrow>
        (\<exists>d. r = Some d \<and> p_id d = t_id new \<and> p_text d = pr_text p \<and>
           p_parentId d = None \<and> p_children d = [] \<and>
           p_author d = (case User_findById (pr_author p) w' of
                           None \<Rightarrow> Null | Some u \<Rightarrow> Populated (user_id_name_image u))))"
proof -
  let ?new = "\<lparr>t_id = nextOid w, t_text = pr_text p, t_author = pr_author p,
          t_community = Community_findOne_id (pr_communityId p) w, t_createdAt = clock w,
          t_parentId = None, t_children = []\<rparr>"
  note c = createThread_Inr[OF assms]
  from c have fresh: "nextOid w \<notin> t_id ` set (threads w)" and ts: "threads w' = threads w @ [?new]"
    by simp_all
  from fresh have "find (\<lambda>t. t_id t = nextOid w) (threads w) = None"
    by (force simp: find_None_iff image_iff)
  with ts have found: "Thread_findById (nextOid w) w' = Some ?new"
    by (simp add: Thread_findById_def find_append)
  have fetch: "\<exists>d. r = Some d \<and> p_id d = nextOid w \<and> p_text d = pr_text p \<and>
           p_parentId d = None \<and> p_children d = [] \<and>
           p_author d = (case User_findById (pr_author p) w' of
                           None \<Rightarrow> Null | Some u \<Rightarrow> Populated (user_id_name_image u))"
    if "fetchThreadById (nextOid w) w' = (Inr r, w'')" for r w''
    using fetchThreadById_Inr[OF that] found
    by (simp add: threadQuery_def populateUser_def)
  show ?thesis
  proof (rule exI[of _ ?new], intro conjI allI impI)
    show "threads w' = threads w @ [?new]" by (rule ts)
    show "t_id ?new \<notin> t_id ` set (threads w)" using fresh by simp
    show "users w' = map (\<lambda>u. if u_id u = pr_author p
                           then u\<lparr>u_threads := u_threads u @ [t_id ?new]\<rparr> else u) (users w)"
      using c by simp
    show "communities w' = communities w" if "Community_findOne_id (pr_communityId p) w = None"
      using c that by simp
    show "communities w' = map (\<lambda>c. if c_id c = cid
                                    then c\<lparr>c_threads := c_threads c @ [t_id ?new]\<rparr> else c)
                             (communities w)"
      if "Community_findOne_id (pr_communityId p) w = Some cid" for cid
      using c that by simp
    show "\<exists>d. r = Some d \<and> p_id d = t_id ?new \<and> p_text d = pr_text p \<and>
           p_parentId d = None \<and> p_children d = [] \<and>
           p_author d = (case User_findById (pr_author p) w' of
                           None \<Rightarrow> Null | Some u \<Rightarrow> Populated (user_id_name_image u))"
      if "fetchThreadById (t_id ?new) w' = (Inr r, w'')" for r w''
      using fetch[of r w''] that by simp
  qed simp_all
qed

text \<open>
  C9 for Alice posting \<open>hello\<close> to the club of the forum: the new thread has id 7.
\<close>

theorem createThread_inserts_witness:
  "fst (createThread hello forum) = Inr () \<and>
   threads (snd (createThread hello forum)) =
     threads forum @ [\<lparr>t_id = 7, t_text = ''hello'', t_author = 100, t_community = Some 200,
                        t_createdAt = 70, t_parentId = None, t_children = []\<rparr>] \<and>
   map u_threads (users (snd (createThread hello forum))) = [[1, 3, 9, 5, 6, 7], [2, 4]] \<and>
   map c_threads (communities (snd (createThread hello forum))) = [[2, 3, 4, 5, 7]] \<and>
   fst (fetchThreadById 7 (snd (createThread hello forum))) = Inr (Some hello_fetched)"
proof -
  let ?w' = "snd (createThread hello forum)"
  have ok: "fst (createThread hello forum) = Inr ()" by code_simp
  then have run: "createThread hello forum = (Inr (), ?w')" by (simp add: prod_eq_iff)
  have vals: "nextOid forum = 7" "pr_text hello = ''hello''" "pr_author hello = 100"
    "Community_findOne_id (pr_communityId hello) forum = Some 200" "clock forum = 70"
    by code_simp+
  from createThread_inserts[OF run] obtain new :: thread where
    n: "threads ?w' = threads forum @ [new]" "t_id new = 7" "t_text new = ''hello''"
       "t_author new = 100" "t_parentId new = None" "t_children new = []"
       "t_community new = Some 200"
    and u: "users ?w' = map (\<lambda>u. if u_id u = 100
                           then u\<lparr>u_threads := u_threads u @ [7]\<rparr> else u) (users forum)"
    and c: "communities ?w' = map (\<lambda>c. if c_id c = 200
                                    then c\<lparr>c_threads := c_threads c @ [7]\<rparr> else c)
                             (communities forum)"
    unfolding vals by auto
  have 1: "map u_threads (users ?w') = [[1, 3, 9, 5, 6, 7], [2, 4]]"
    unfolding u by code_simp
  have 2: "map c_threads (communities ?w') = [[2, 3, 4, 5, 7]]"
    unfolding c by code_simp
  have 3: "fst (fetchThreadById 7 ?w') = Inr (Some hello_fetched)" by code_simp
  have 4: "threads ?w' =
     threads forum @ [\<lparr>t_id = 7, t_text = ''hello'', t_author = 100, t_community = Some 200,
                        t_createdAt = 70, t_parentId = None, t_children = []\<rparr>]" by code_simp
  from ok 1 2 3 4 show ?thesis by simp
qed

text \<open>
  C8, as stated, fails in its last part: on the id 9 of no thread \<open>addCommentToThread\<close>
  throws the error \<open>Unable to add comment\<close>, the same that it throws when the store
  fails, and not \<open>Thread not found\<close>.
\<close>

theorem addCommentToThread_not_found_is_generic:
  "Thread_findById 9 forum = None \<and>
   fst (addCommentToThread 9 ''hi'' 100 ''/'' forum) = Inl (Error ''Unable to add comment'') \<and>
   fst (addCommentToThread 9 ''hi'' 100 ''/'' forum) \<noteq> Inl (Error ''Thread not found'') \<and>
   fst (addCommentToThread 1 ''hi'' 100 ''/'' outage) = Inl (Error ''Unable to add comment'')"
proof (intro conjI)
  show "Thread_findById 9 forum = None" by code_simp
  show "fst (addCommentToThread 9 ''hi'' 100 ''/'' forum) = Inl (Error ''Unable to add comment'')"
    by code_simp
  show "fst (addCommentToThread 9 ''hi'' 100 ''/'' forum) \<noteq> Inl (Error ''Thread not found'')"
    by code_simp
  show "fst (addCommentToThread 1 ''hi'' 100 ''/'' outage) = Inl (Error ''Unable to add comment'')"
    by code_simp
qed

text \<open>
  C8, amended: after N calls of \<open>addCommentToThread\<close> on a thread with no \<open>children\<close>
  that all returned, its \<open>children\<close> hold N ids, the k-th the id of a Thread whose
  \<open>parentId\<close> is the thread's id and whose text and author are those of the k-th call.
  For an id of no thread the call throws the error \<open>Unable to add comment\<close> and leaves
  the three collections as they are.
\<close>

theorem addComments_children:
  "(\<forall>p w'. Thread_findById i w = Some p \<and> t_children p = [] \<and>
            addComments i cs path w = Some w' \<longrightarrow>
      (\<exists>p'. Thread_findById i w' = Some p' \<and> length (t_children p') = length cs \<and>
         (\<forall>k < length cs. \<exists>c. Thread_findById (t_children p' ! k) w' = Some c \<and>
            t_parentId c = Some i \<and> t_text c = fst (cs ! k) \<and> t_author c = snd (cs ! k)))) \<and>
   (Thread_findById i w = None \<longrightarrow>
      (\<exists>w'. addCommentToThread i commentText userId path w =
               (Inl (Error ''Unable to add comment''), w') \<and>
         threads w' = threads w \<and> users w' = users w \<and> communities w' = communities w))"
proof (intro conjI allI impI)
  fix p w'
  assume a: "Thread_findById i w = Some p \<and> t_children p = [] \<and> addComments i cs path w = Some w'"
  then have run: "addComments i cs path w = Some w'" and p: "Thread_findById i w = Some p"
    and empty: "t_children p = []" by simp_all
  from addComments_Some[OF run p] empty obtain ids where
    "length ids = length cs" "Thread_findById i w' = Some (p\<lparr>t_children := ids\<rparr>)"
    "\<forall>k < length cs. \<exists>c. Thread_findById (ids ! k) w' = Some c \<and> t_parentId c = Some i \<and>
        t_text c = fst (cs ! k) \<and> t_author c = snd (cs ! k)"
    by auto
  then show "\<exists>p'. Thread_findById i w' = Some p' \<and> length (t_children p') = length cs \<and>
         (\<forall>k < length cs. \<exists>c. Thread_findById (t_children p' ! k) w' = Some c \<and>
            t_parentId c = Some i \<and> t_text c = fst (cs ! k) \<and> t_author c = snd (cs ! k))"
    by (intro exI[of _ "p\<lparr>t_children := ids\<rparr>"]) simp
next
  assume "Thread_findById i w = None"
  then show "\<exists>w'. addCommentToThread i commentText userId path w =
               (Inl (Error ''Unable to add comment''), w') \<and>
         threads w' = threads w \<and> users w' = users w \<and> communities w' = communities w"
    by (rule addCommentToThread_missing)
qed

text \<open>
  C8, amended, for two comments on post 6 of the forum, and for a comment on the id 9.
\<close>

theorem addComments_children_witness:
  "(\<exists>w' p'. addComments 6 [(''first'', 100), (''second'', 101)] ''/'' forum = Some w' \<and>
      Thread_findById 6 w' = Some p' \<and> length (t_children p') = 2 \<and>
      (\<exists>c. Thread_findById (t_children p' ! 0) w' = Some c \<and>
            t_parentId c = Some 6 \<and> t_text c = ''first'' \<and> t_author c = 100) \<and>
      (\<exists>c. Thread_findById (t_children p' ! 1) w' = Some c \<and>
            t_parentId c = Some 6 \<and> t_text c = ''second'' \<and> t_author c = 101)) \<and>
   (\<exists>w'. addCommentToThread 9 ''hi'' 100 ''/'' forum =
               (Inl (Error ''Unable to add comment''), w') \<and>
         threads w' = threads forum \<and> users w' = users forum \<and>
         communities w' = communities forum)"
proof -
  let ?cs = "[(''first'', 100::nat), (''second'', 101)]"
  have "addComments 6 ?cs ''/'' forum \<noteq> None" by code_simp
  then obtain w' where run: "addComments 6 ?cs ''/'' forum = Some w'" by blast
  have p: "Thread_findById 6 forum = Some (post 6 100 60 [])" by code_simp
  have e: "t_children (post 6 100 60 []) = []" by (simp add: post_def)
  have absent: "Thread_findById 9 forum = None" by code_simp
  note t = addComments_children[of 6 forum ?cs "''/''"]
  from t[THEN conjunct1, rule_format, of "post 6 100 60 []" w'] p e run
  obtain p' :: thread where
    found: "Thread_findById 6 w' = Some p'" and len: "length (t_children p') = length ?cs" and
    each: "\<forall>k < length ?cs. \<exists>c. Thread_findById (t_children p' ! k) w' = Some c \<and>
            t_parentId c = Some 6 \<and> t_text c = fst (?cs ! k) \<and> t_author c = snd (?cs ! k)"
    by blast
  from each[THEN spec, of 0] have k0: "\<exists>c. Thread_findById (t_children p' ! 0) w' = Some c \<and>
            t_parentId c = Some 6 \<and> t_text c = ''first'' \<and> t_author c = 100" by simp
  from each[THEN spec, of 1] have k1: "\<exists>c. Thread_findById (t_children p' ! 1) w' = Some c \<and>
            t_parentId c = Some 6 \<and> t_text c = ''second'' \<and> t_author c = 101" by simp
  from len have len2: "length (t_children p') = 2" by simp
  from run found len2 k0 k1 have first: "\<exists>w' p'. addComments 6 ?cs ''/'' forum = Some w' \<and>
      Thread_findById 6 w' = Some p' \<and> length (t_children p') = 2 \<and>
      (\<exists>c. Thread_findById (t_children p' ! 0) w' = Some c \<and>
            t_parentId c = Some 6 \<and> t_text c = ''first'' \<and> t_author c = 100) \<and>
      (\<exists>c. Thread_findById (t_children p' ! 1) w' = Some c \<and>
            t_parentId c = Some 6 \<and> t_text c = ''second'' \<and> t_author c = 101)"
    by - (rule exI[of _ w'], rule exI[of _ p'], intro conjI, assumption+)
  from addComments_children[of 9 forum "[]" "''/''" "''hi''" 100, THEN conjunct2, rule_format, OF absent]
  have second: "\<exists>w'. addCommentToThread 9 ''hi'' 100 ''/'' forum =
               (Inl (Error ''Unable to add comment''), w') \<and>
         threads w' = threads forum \<and> users w' = users forum \<and>
         communities w' = communities forum" .
  from first second show ?thesis by (rule conjI)
qed

text \<open>
  C1: a call of \<open>deleteThread\<close> that returns was given the id of a stored thread and
  has removed from the Thread store the threads whose id is the target's or that of a
  transitive descendant of the target, and no other; every other thread is still
  there, in place. A target without replies is the only thread removed. When ids are
  unique, a target without replies makes the store one thread shorter, and a target
  with a reply chain of depth D makes it D + 1 threads shorter. With no failure
  scheduled the call does return: on a forest within the depth \<open>length + 1\<close>, on a
  chain of depth D within the depth D + 1.
\<close>

theorem deleteThread_removes_subtree:
  "(\<forall>depth x w'. deleteThread depth i path w = Some (Inr x, w') \<longrightarrow>
      i \<in> t_id ` set (threads w) \<and>
      threads w' = filter (\<lambda>t. t_id t \<notin> deletedIds i (threads w)) (threads w) \<and>
      (childrenOf (threads w) i = [] \<longrightarrow> threads w' = filter (\<lambda>t. t_id t \<noteq> i) (threads w)) \<and>
      (distinct (map t_id (threads w)) \<longrightarrow>
         (childrenOf (threads w) i = [] \<longrightarrow> length (threads w') + 1 = length (threads w)) \<and>
         (\<forall>cs. chain (threads w) i cs \<longrightarrow>
            length (threads w') + (length cs + 1) = length (threads w)))) \<and>
   (faults w = [] \<and> i \<in> t_id ` set (threads w) \<longrightarrow>
      (acyclic (childRel (threads w)) \<longrightarrow>
         (\<exists>w'. deleteThread (Suc (length (threads w))) i path w = Some (Inr (), w'))) \<and>
      (\<forall>cs. chain (threads w) i cs \<longrightarrow>
         (\<exists>w'. deleteThread (Suc (length cs)) i path w = Some (Inr (), w'))))"
proof (intro conjI allI impI)
  fix depth x w'
  assume run: "deleteThread depth i path w = Some (Inr x, w')"
  from deleteThread_Inr[OF run] obtain main ds where
    main: "Thread_findById i w = Some main" and
    ds: "descendants depth (threads w) i = Some ds" and
    ts: "threads w' = filter (\<lambda>t. t_id t \<notin> insert i (t_id ` set ds)) (threads w)"
    by blast
  from Thread_findById_Some[OF main] show i: "i \<in> t_id ` set (threads w)" by force
  from ts show del: "threads w' = filter (\<lambda>t. t_id t \<notin> deletedIds i (threads w)) (threads w)"
    by (simp only: deletedIds_descendants[OF ds])
  have none: "ds = []" if "childrenOf (threads w) i = []"
  proof -
    from that have "descendants (Suc 0) (threads w) i = Some []" by simp
    from descendants_unique[OF ds this] show ?thesis .
  qed
  show "threads w' = filter (\<lambda>t. t_id t \<noteq> i) (threads w)" if "childrenOf (threads w) i = []"
    using ts none[OF that] by simp
  {
    assume d: "distinct (map t_id (threads w))"
    note count = deleted_count[OF d ds i, folded ts]
    show "length (threads w') + 1 = length (threads w)" if "childrenOf (threads w) i = []"
      using count none[OF that] by simp
    fix cs assume "chain (threads w) i cs"
    from descendants_unique[OF ds chain_descendants[OF this]] count
    show "length (threads w') + (length cs + 1) = length (threads w)" by simp
  }
next
  assume a: "faults w = [] \<and> i \<in> t_id ` set (threads w)"
  then obtain main where main: "Thread_findById i w = Some main"
    by (cases "Thread_findById i w") (auto simp: Thread_findById_def find_None_iff)
  {
    assume "acyclic (childRel (threads w))"
    from descendants_terminates[OF this, of i "Suc (length (threads w))"] card_descendantIds[of "threads w" i]
    obtain ds where "descendants (Suc (length (threads w))) (threads w) i = Some ds" by auto
    with a main show "\<exists>w'. deleteThread (Suc (length (threads w))) i path w = Some (Inr (), w')"
      by (intro deleteThread_no_faults) auto
  }
  fix cs assume "chain (threads w) i cs"
  from chain_descendants[OF this] a main
  show "\<exists>w'. deleteThread (Suc (length cs)) i path w = Some (Inr (), w')"
    by (intro deleteThread_no_faults) auto
qed

text \<open>
  C1 at thread 2 of the forum, the head of the chain 2, 4, 5.
\<close>

theorem deleteThread_removes_subtree_witness:
  "faults forum = [] \<and> 2 \<in> t_id ` set (threads forum) \<and>
   chain (threads forum) 2 [reply 4 101 2 [5], reply 5 100 4 []] \<and>
   distinct (map t_id (threads forum)) \<and>
   (\<exists>w'. deleteThread 3 2 ''/'' forum = Some (Inr (), w') \<and>
      threads w' = filter (\<lambda>t. t_id t \<notin> deletedIds 2 (threads forum)) (threads forum) \<and>
      map t_id (threads w') = [1, 3, 6] \<and>
      length (threads w') + 3 = length (threads forum))"
proof -
  let ?cs = "[reply 4 101 2 [5], reply 5 100 4 []]"
  have nf: "faults forum = []" by (simp add: forum_def)
  have ex: "2 \<in> t_id ` set (threads forum)" by (simp add: forum_def post_def reply_def)
  have ch: "chain (threads forum) 2 ?cs" by code_simp
  note t = deleteThread_removes_subtree[of 2 "''/''" forum]
  from t[THEN conjunct2] nf ex ch obtain w' where
    run: "deleteThread (Suc (length ?cs)) 2 ''/'' forum = Some (Inr (), w')" by blast
  then have run3: "deleteThread 3 2 ''/'' forum = Some (Inr (), w')" by (simp add: numeral_3_eq_3)
  note c1 = t[THEN conjunct1, rule_format, OF run3]
  note f = c1[THEN conjunct2, THEN conjunct1]
  note n = c1[THEN conjunct2, THEN conjunct2, THEN conjunct2, THEN mp, OF forum_ids,
              THEN conjunct2, THEN spec, THEN mp, OF ch]
  from n have n3: "length (threads w') + 3 = length (threads forum)" by simp
  have "map_option (\<lambda>r. map t_id (threads (snd r))) (deleteThread 3 2 ''/'' forum) = Some [1, 3, 6]"
    by code_simp
  with run3 have m: "map t_id (threads w') = [1, 3, 6]" by simp
  from nf ex ch forum_ids run3 f m n3 show ?thesis
    by - (intro conjI exI[of _ w'], assumption+)
qed

text \<open>
  C2: after a call of \<open>deleteThread\<close> that returned, on a store with unique thread ids,
  the Users and Communities are the same documents in the same order. A User who is
  the author of a deleted thread is the old document with the deleted ids filtered out
  of its \<open>threads\<close>; every other User is the document it was. So in the list of every
  User the ids that were not deleted are the old ones, in their old order. Where the
  list of a User is a list of back-references, that is, every id in it that names a
  stored thread names one of this User's own, the list is the old one with the deleted
  ids filtered out, whether or not the User wrote a deleted thread: none of the deleted
  ids is left, every other id is, in its old order. The same holds of every Community,
  with the threads that are posted to it.
\<close>

theorem deleteThread_pulls_back_references:
  assumes "deleteThread depth i path w = Some (Inr x, w')"
    and "distinct (map t_id (threads w))"
  shows "length (users w') = length (users w) \<and>
     length (communities w') = length (communities w) \<and>
     (\<forall>k < length (users w).
        u_id (users w' ! k) = u_id (users w ! k) \<and>
        ((\<exists>t \<in> set (threads w). t_id t \<in> deletedIds i (threads w) \<and>
                                 t_author t = u_id (users w ! k)) \<longrightarrow>
           u_threads (users w' ! k) =
             filter (\<lambda>j. j \<notin> deletedIds i (threads w)) (u_threads (users w ! k))) \<and>
        users w' ! k =
          (if \<exists>t \<in> set (threads w). t_id t \<in> deletedIds i (threads w) \<and>
                                     t_author t = u_id (users w ! k)
           then (users w ! k)\<lparr>u_threads :=
                   filter (\<lambda>j. j \<notin> deletedIds i (threads w)) (u_threads (users w ! k))\<rparr>
           else users w ! k) \<and>
        filter (\<lambda>j. j \<notin> deletedIds i (threads w)) (u_threads (users w' ! k)) =
          filter (\<lambda>j. j \<notin> deletedIds i (threads w)) (u_threads (users w ! k)) \<and>
        ((\<forall>j \<in> set (u_threads (users w ! k)). \<forall>t \<in> set (threads w).
            t_id t = j \<longrightarrow> t_author t = u_id (users w ! k)) \<longrightarrow>
           u_threads (users w' ! k) =
             filter (\<lambda>j. j \<notin> deletedIds i (threads w)) (u_threads (users w ! k)))) \<and>
     (\<forall>k < length (communities w).
        c_id (communities w' ! k) = c_id (communities w ! k) \<and>
        ((\<exists>t \<in> set (threads w). t_id t \<in> deletedIds i (threads w) \<and>
                                 t_community t = Some (c_id (communities w ! k))) \<longrightarrow>
           c_threads (communities w' ! k) =
             filter (\<lambda>j. j \<notin> deletedIds i (threads w)) (c_threads (communities w ! k))) \<and>
        communities w' ! k =
          (if \<exists>t \<in> set (threads w). t_id t \<in> deletedIds i (threads w) \<and>
                                     t_community t = Some (c_id (communities w ! k))
           then (communities w ! k)\<lparr>c_threads :=
                   filter (\<lambda>j. j \<notin> deletedIds i (threads w)) (c_threads (communities w ! k))\<rparr>
           else communities w ! k) \<and>
        filter (\<lambda>j. j \<notin> deletedIds i (threads w)) (c_threads (communities w' ! k)) =
          filter (\<lambda>j. j \<notin> deletedIds i (threads w)) (c_threads (communities w ! k)) \<and>
        ((\<forall>j \<in> set (c_threads (communities w ! k)). \<forall>t \<in> set (threads w).
            t_id t = j \<longrightarrow> t_community t = Some (c_id (communities w ! k))) \<longrightarrow>
           c_threads (communities w' ! k) =
             filter (\<lambda>j. j \<notin> deletedIds i (threads w)) (c_threads (communities w ! k))))"
proof -
  let ?D = "deletedIds i (threads w)"
  from deleteThread_Inr[OF assms(1)] obtain main ds where
    main: "Thread_findById i w = Some main" and
    ds: "descendants depth (threads w) i = Some ds" and
    us: "users w' = map (\<lambda>u. if u_id u \<in> t_author ` set (main # ds)
                           then u\<lparr>u_threads := filter (\<lambda>j. j \<notin> insert i (t_id ` set ds))
                                                  (u_threads u)\<rparr>
                           else u) (users w)" and
    cs: "communities w' = map (\<lambda>c. if Some (c_id c) \<in> t_community ` set (main # ds)
                                 then c\<lparr>c_threads := filter (\<lambda>j. j \<notin> insert i (t_id ` set ds))
                                                        (c_threads c)\<rparr>
                                 else c) (communities w)"
    by blast
  note D = deletedIds_descendants[OF ds]
  from assms(2) have inj: "inj_on t_id (set (threads w))" by (simp add: distinct_map)
  note m = Thread_findById_Some[OF main]
  have gone: "t \<in> set (main # ds)" if "t \<in> set (threads w)" "t_id t \<in> ?D" for t
  proof (cases "t_id t = i")
    case True
    with that(1) m inj have "t = main" by (auto dest: inj_onD)
    then show ?thesis by simp
  next
    case False
    with that(2) have "t_id t \<in> descendantIds (threads w) i" by (simp add: deletedIds_def)
    with that(1) descendants_docs[OF assms(2) ds] show ?thesis by simp
  qed
  have here: "t \<in> set (threads w) \<and> t_id t \<in> ?D" if "t \<in> set (main # ds)" for t
  proof -
    from that m descendants_ids[OF ds] have "t \<in> set (threads w)" by auto
    moreover from that m have "t_id t \<in> insert i (t_id ` set ds)" by auto
    ultimately show ?thesis by (simp add: D)
  qed
  have exists: "\<exists>t \<in> set (threads w). t_id t = j" if "j \<in> ?D" for j
  proof -
    from that D have "j \<in> insert i (t_id ` set ds)" by simp
    then have "j \<in> t_id ` set (main # ds)" using m by auto
    then obtain t :: thread where "t \<in> set (main # ds)" "t_id t = j"
      unfolding image_iff by metis
    with here[of t] show ?thesis by auto
  qed
  have A: "(u_id u \<in> t_author ` set (main # ds)) \<longleftrightarrow>
           (\<exists>t \<in> set (threads w). t_id t \<in> ?D \<and> t_author t = u_id u)" for u :: user
  proof
    assume "u_id u \<in> t_author ` set (main # ds)"
    then obtain t :: thread where "t \<in> set (main # ds)" "t_author t = u_id u"
      unfolding image_iff by metis
    with here[of t] show "\<exists>t \<in> set (threads w). t_id t \<in> ?D \<and> t_author t = u_id u" by auto
  next
    assume "\<exists>t \<in> set (threads w). t_id t \<in> ?D \<and> t_author t = u_id u"
    then obtain t :: thread where "t \<in> set (threads w)" "t_id t \<in> ?D" "t_author t = u_id u" by auto
    with gone[of t] show "u_id u \<in> t_author ` set (main # ds)" by (metis imageI)
  qed
  have C: "(Some (c_id c) \<in> t_community ` set (main # ds)) \<longleftrightarrow>
           (\<exists>t \<in> set (threads w). t_id t \<in> ?D \<and> t_community t = Some (c_id c))" for c :: community
  proof
    assume "Some (c_id c) \<in> t_community ` set (main # ds)"
    then obtain t :: thread where "t \<in> set (main # ds)" "t_community t = Some (c_id c)"
      unfolding image_iff by metis
    with here[of t] show "\<exists>t \<in> set (threads w). t_id t \<in> ?D \<and> t_community t = Some (c_id c)"
      by auto
  next
    assume "\<exists>t \<in> set (threads w). t_id t \<in> ?D \<and> t_community t = Some (c_id c)"
    then obtain t :: thread where "t \<in> set (threads w)" "t_id t \<in> ?D" "t_community t = Some (c_id c)"
      by auto
    with gone[of t] show "Some (c_id c) \<in> t_community ` set (main # ds)" by (metis imageI)
  qed
  have us': "users w' = map (\<lambda>u. if \<exists>t \<in> set (threads w). t_id t \<in> ?D \<and> t_author t = u_id u
                           then u\<lparr>u_threads := filter (\<lambda>j. j \<notin> ?D) (u_threads u)\<rparr>
                           else u) (users w)"
    unfolding us D A ..
  have cs': "communities w' =
      map (\<lambda>c. if \<exists>t \<in> set (threads w). t_id t \<in> ?D \<and> t_community t = Some (c_id c)
                then c\<lparr>c_threads := filter (\<lambda>j. j \<notin> ?D) (c_threads c)\<rparr>
                else c) (communities w)"
    unfolding cs D C ..
  show ?thesis
  proof (intro conjI allI impI)
    show "length (users w') = length (users w)" by (simp add: us')
    show "length (communities w') = length (communities w)" by (simp add: cs')
  next
    fix k assume k: "k < length (users w)"
    let ?u = "users w ! k"
    let ?P = "\<exists>t \<in> set (threads w). t_id t \<in> ?D \<and> t_author t = u_id ?u"
    from k have u': "users w' ! k = (if ?P then ?u\<lparr>u_threads := filter (\<lambda>j. j \<notin> ?D) (u_threads ?u)\<rparr>
                                     else ?u)"
      by (simp add: us')
    show "users w' ! k = (if ?P then ?u\<lparr>u_threads := filter (\<lambda>j. j \<notin> ?D) (u_threads ?u)\<rparr>
                                     else ?u)" by (rule u')
    show "u_id (users w' ! k) = u_id ?u" by (simp add: u')
    show "filter (\<lambda>j. j \<notin> ?D) (u_threads (users w' ! k)) = filter (\<lambda>j. j \<notin> ?D) (u_threads ?u)"
      by (simp add: u')
    {
      assume ?P
      then show "u_threads (users w' ! k) = filter (\<lambda>j. j \<notin> ?D) (u_threads ?u)"
        by (simp add: u')
    }
    assume inv: "\<forall>j \<in> set (u_threads ?u). \<forall>t \<in> set (threads w). t_id t = j \<longrightarrow> t_author t = u_id ?u"
    show "u_threads (users w' ! k) = filter (\<lambda>j. j \<notin> ?D) (u_threads ?u)"
    proof (cases ?P)
      case True
      then show ?thesis by (simp add: u')
    next
      case False
      have "j \<notin> ?D" if j: "j \<in> set (u_threads ?u)" for j
      proof
        assume "j \<in> ?D"
        from exists[OF this] obtain t :: thread where t: "t \<in> set (threads w)" "t_id t = j" by auto
        with inv j have "t_author t = u_id ?u" by auto
        with t \<open>j \<in> ?D\<close> False show False by auto
      qed
      then have "filter (\<lambda>j. j \<notin> ?D) (u_threads ?u) = u_threads ?u" by (simp add: filter_id_conv)
      with False show ?thesis by (simp add: u')
    qed
  next
    fix k assume k: "k < length (communities w)"
    let ?c = "communities w ! k"
    let ?P = "\<exists>t \<in> set (threads w). t_id t \<in> ?D \<and> t_community t = Some (c_id ?c)"
    from k have c': "communities w' ! k =
        (if ?P then ?c\<lparr>c_threads := filter (\<lambda>j. j \<notin> ?D) (c_threads ?c)\<rparr> else ?c)"
      by (simp add: cs')
    show "communities w' ! k =
        (if ?P then ?c\<lparr>c_threads := filter (\<lambda>j. j \<notin> ?D) (c_threads ?c)\<rparr> else ?c)" by (rule c')
    show "c_id (communities w' ! k) = c_id ?c" by (simp add: c')
    show "filter (\<lambda>j. j \<notin> ?D) (c_threads (communities w' ! k)) = filter (\<lambda>j. j \<notin> ?D) (c_threads ?c)"
      by (simp add: c')
    {
      assume ?P
      then show "c_threads (communities w' ! k) = filter (\<lambda>j. j \<notin> ?D) (c_threads ?c)"
        by (simp add: c')
    }
    assume inv: "\<forall>j \<in> set (c_threads ?c). \<forall>t \<in> set (threads w).
                   t_id t = j \<longrightarrow> t_community t = Some (c_id ?c)"
    show "c_threads (communities w' ! k) = filter (\<lambda>j. j \<notin> ?D) (c_threads ?c)"
    proof (cases ?P)
      case True
      then show ?thesis by (simp add: c')
    next
      case False
      have "j \<notin> ?D" if j: "j \<in> set (c_threads ?c)" for j
      proof
        assume "j \<in> ?D"
        from exists[OF this] obtain t :: thread where t: "t \<in> set (threads w)" "t_id t = j" by auto
        with inv j have "t_community t = Some (c_id ?c)" by auto
        with t \<open>j \<in> ?D\<close> False show False by auto
      qed
      then have "filter (\<lambda>j. j \<notin> ?D) (c_threads ?c) = c_threads ?c" by (simp add: filter_id_conv)
      with False show ?thesis by (simp add: c')
    qed
  qed
qed

text \<open>
  C2 in the forum. When post 1 goes, Alice keeps 9 and 6, in that order; Bob and the
  club keep nothing. When post 6 goes, Bob and the club have nothing to do with it and
  are the documents they were, Alice keeps 1, 3, 9 and 5.
\<close>

theorem deleteThread_pulls_back_references_witness:
  "distinct (map t_id (threads forum)) \<and>
   (\<exists>w'. deleteThread 7 1 ''/'' forum = Some (Inr (), w') \<and>
      length (users w') = length (users forum) \<and>
      u_threads (users w' ! 0) =
        filter (\<lambda>j. j \<notin> deletedIds 1 (threads forum)) (u_threads (users forum ! 0)) \<and>
      map u_threads (users w') = [[9, 6], []] \<and>
      map c_threads (communities w') = [[]]) \<and>
   (\<exists>w'. deleteThread 7 6 ''/'' forum = Some (Inr (), w') \<and>
      users w' ! 1 = users forum ! 1 \<and>
      u_threads (users w' ! 1) =
        filter (\<lambda>j. j \<notin> deletedIds 6 (threads forum)) (u_threads (users forum ! 1)) \<and>
      communities w' ! 0 = communities forum ! 0 \<and>
      c_threads (communities w' ! 0) =
        filter (\<lambda>j. j \<notin> deletedIds 6 (threads forum)) (c_threads (communities forum ! 0)) \<and>
      map u_threads (users w') = [[1, 3, 9, 5], [2, 4]] \<and>
      map c_threads (communities w') = [[2, 3, 4, 5]])"
proof -
  have "map_option fst (deleteThread 7 1 ''/'' forum) = Some (Inr ())" by code_simp
  then obtain w' where run: "deleteThread 7 1 ''/'' forum = Some (Inr (), w')"
    by (cases "deleteThread 7 1 ''/'' forum") auto
  note t = deleteThread_pulls_back_references[OF run forum_ids]
  have author: "\<exists>t \<in> set (threads forum). t_id t \<in> deletedIds 1 (threads forum) \<and>
                                 t_author t = u_id (users forum ! 0)"
    by (rule bexI[of _ "post 1 100 10 [2, 3]"])
       (simp_all add: deletedIds_def forum_def post_def alice_def)
  have k: "0 < length (users forum)" by (simp add: forum_def)
  note len = t[THEN conjunct1]
  note pulled = t[THEN conjunct2, THEN conjunct2, THEN conjunct1, THEN spec, THEN mp, OF k,
                  THEN conjunct2, THEN conjunct1, THEN mp, OF author]
  have "map_option (\<lambda>r. (map u_threads (users (snd r)), map c_threads (communities (snd r))))
          (deleteThread 7 1 ''/'' forum) = Some ([[9, 6], []], [[]])"
    by code_simp
  with run have us: "map u_threads (users w') = [[9, 6], []]"
    and cs: "map c_threads (communities w') = [[]]"
    by simp_all
  from run len pulled us cs have first:
    "\<exists>w'. deleteThread 7 1 ''/'' forum = Some (Inr (), w') \<and>
      length (users w') = length (users forum) \<and>
      u_threads (users w' ! 0) =
        filter (\<lambda>j. j \<notin> deletedIds 1 (threads forum)) (u_threads (users forum ! 0)) \<and>
      map u_threads (users w') = [[9, 6], []] \<and>
      map c_threads (communities w') = [[]]"
    by - (intro conjI exI[of _ w'], assumption+)
  have "map_option fst (deleteThread 7 6 ''/'' forum) = Some (Inr ())" by code_simp
  then obtain w2 where run2: "deleteThread 7 6 ''/'' forum = Some (Inr (), w2)"
    by (cases "deleteThread 7 6 ''/'' forum") auto
  note t2 = deleteThread_pulls_back_references[OF run2 forum_ids]
  have k1: "1 < length (users forum)" by (simp add: forum_def)
  have c0: "0 < length (communities forum)" by (simp add: forum_def)
  have six: "descendants 1 (threads forum) 6 = Some []" by code_simp
  have D6: "deletedIds 6 (threads forum) = {6}"
    using deletedIds_descendants[OF six] by simp
  have bystander: "\<not> (\<exists>t \<in> set (threads forum). t_id t \<in> deletedIds 6 (threads forum) \<and>
                                 t_author t = u_id (users forum ! 1))"
    unfolding D6 by (simp add: forum_def post_def reply_def bob_def)
  have outside: "\<not> (\<exists>t \<in> set (threads forum). t_id t \<in> deletedIds 6 (threads forum) \<and>
                        t_community t = Some (c_id (communities forum ! 0)))"
    unfolding D6 by (simp add: forum_def post_def reply_def club_def)
  have own: "\<forall>j \<in> set (u_threads (users forum ! 1)). \<forall>t \<in> set (threads forum).
               t_id t = j \<longrightarrow> t_author t = u_id (users forum ! 1)"
    by (simp add: forum_def post_def reply_def bob_def)
  have cown: "\<forall>j \<in> set (c_threads (communities forum ! 0)). \<forall>t \<in> set (threads forum).
               t_id t = j \<longrightarrow> t_community t = Some (c_id (communities forum ! 0))"
    by (simp add: forum_def post_def reply_def club_def)
  note user1 = t2[THEN conjunct2, THEN conjunct2, THEN conjunct1, THEN spec, THEN mp, OF k1]
  note comm0 = t2[THEN conjunct2, THEN conjunct2, THEN conjunct2, THEN spec, THEN mp, OF c0]
  from user1[THEN conjunct2, THEN conjunct2, THEN conjunct1] bystander
  have same: "users w2 ! 1 = users forum ! 1" by (simp only: if_False)
  note kept = user1[THEN conjunct2, THEN conjunct2, THEN conjunct2, THEN conjunct2, THEN mp, OF own]
  from comm0[THEN conjunct2, THEN conjunct2, THEN conjunct1] outside
  have csame: "communities w2 ! 0 = communities forum ! 0" by (simp only: if_False)
  note ckept = comm0[THEN conjunct2, THEN conjunct2, THEN conjunct2, THEN conjunct2, THEN mp, OF cown]
  have "map_option (\<lambda>r. (map u_threads (users (snd r)), map c_threads (communities (snd r))))
          (deleteThread 7 6 ''/'' forum) = Some ([[1, 3, 9, 5], [2, 4]], [[2, 3, 4, 5]])"
    by code_simp
  with run2 have us2: "map u_threads (users w2) = [[1, 3, 9, 5], [2, 4]]"
    and cs2: "map c_threads (communities w2) = [[2, 3, 4, 5]]"
    by simp_all
  from run2 same kept csame ckept us2 cs2 have second:
    "\<exists>w'. deleteThread 7 6 ''/'' forum = Some (Inr (), w') \<and>
      users w' ! 1 = users forum ! 1 \<and>
      u_threads (users w' ! 1) =
        filter (\<lambda>j. j \<notin> deletedIds 6 (threads forum)) (u_threads (users forum ! 1)) \<and>
      communities w' ! 0 = communities forum ! 0 \<and>
      c_threads (communities w' ! 0) =
        filter (\<lambda>j. j \<notin> deletedIds 6 (threads forum)) (c_threads (communities forum ! 0)) \<and>
      map u_threads (users w') = [[1, 3, 9, 5], [2, 4]] \<and>
      map c_threads (communities w') = [[2, 3, 4, 5]]"
    by - (intro conjI exI[of _ w2], assumption+)
  from forum_ids first second show ?thesis by - (intro conjI, assumption+)
qed

text \<open>
  C5: after a call of \<open>deleteThread\<close> that returned, the Thread store is the old one with
  the deleted threads filtered out, so every thread that is left is the document it
  was, in every field. In particular a parent of the target outside the deleted
  subtree is found unchanged, with the same \<open>children\<close>, while the target is not found
  any more: its id in the parent's \<open>children\<close> dangles.
\<close>

theorem deleteThread_leaves_survivors:
  assumes "deleteThread depth i path w = Some (Inr x, w')"
  shows "threads w' = filter (\<lambda>t. t_id t \<notin> deletedIds i (threads w)) (threads w) \<and>
     (\<forall>p parent. p \<notin> deletedIds i (threads w) \<and> Thread_findById p w = Some parent \<longrightarrow>
        Thread_findById p w' = Some parent) \<and>
     Thread_findById i w' = None \<and>
     (\<forall>comment p parent.
        Thread_findById i w = Some comment \<and> t_parentId comment = Some p \<and>
        p \<notin> deletedIds i (threads w) \<and> Thread_findById p w = Some parent \<and>
        i \<in> set (t_children parent) \<longrightarrow>
        (\<exists>parent'. Thread_findById p w' = Some parent' \<and>
           t_children parent' = t_children parent \<and> i \<in> set (t_children parent') \<and>
           Thread_findById i w' = None))"
proof -
  let ?D = "deletedIds i (threads w)"
  from deleteThread_Inr[OF assms] obtain main ds where
    ds: "descendants depth (threads w) i = Some ds" and
    ts: "threads w' = filter (\<lambda>t. t_id t \<notin> insert i (t_id ` set ds)) (threads w)"
    by blast
  from ts have del: "threads w' = filter (\<lambda>t. t_id t \<notin> ?D) (threads w)"
    by (simp only: deletedIds_descendants[OF ds])
  have keep: "Thread_findById p w' = Some parent"
    if "p \<notin> ?D" "Thread_findById p w = Some parent" for p parent
  proof -
    from Thread_findById_Some[OF that(2)] that(1) have "t_id parent \<notin> ?D" by simp
    with that(2) show ?thesis
      unfolding Thread_findById_def del by (intro find_filter_Some)
  qed
  have gone: "Thread_findById i w' = None"
    unfolding Thread_findById_def del by (auto simp: find_None_iff deletedIds_def)
  from del keep gone show ?thesis by auto
qed

text \<open>
  C5 at the comment 4 of the forum, whose parent 2 survives with \<open>children = [4]\<close>.
\<close>

theorem deleteThread_leaves_survivors_witness:
  "\<exists>w'. deleteThread 2 4 ''/'' forum = Some (Inr (), w') \<and>
      2 \<notin> deletedIds 4 (threads forum) \<and>
      Thread_findById 2 forum = Some (reply 2 101 1 [4]) \<and>
      Thread_findById 2 w' = Some (reply 2 101 1 [4]) \<and>
      Thread_findById 4 w' = None"
proof -
  have "map_option fst (deleteThread 2 4 ''/'' forum) = Some (Inr ())" by code_simp
  then obtain w' where run: "deleteThread 2 4 ''/'' forum = Some (Inr (), w')"
    by (cases "deleteThread 2 4 ''/'' forum") auto
  have "descendants 2 (threads forum) 4 = Some [reply 5 100 4 []]" by code_simp
  from deletedIds_descendants[OF this, symmetric] have out: "2 \<notin> deletedIds 4 (threads forum)"
    by (simp add: reply_def)
  have parent: "Thread_findById 2 forum = Some (reply 2 101 1 [4])" by code_simp
  note t = deleteThread_leaves_survivors[OF run]
  from out parent have "2 \<notin> deletedIds 4 (threads forum) \<and>
      Thread_findById 2 forum = Some (reply 2 101 1 [4])" by (rule conjI)
  note kept = t[THEN conjunct2, THEN conjunct1, THEN spec, THEN spec, THEN mp, OF this]
  note gone = t[THEN conjunct2, THEN conjunct2, THEN conjunct1]
  from run out parent kept gone show ?thesis
    by - (intro conjI exI[of _ w'], assumption+)
qed

text \<open>
  C10: when the replies form a forest and thread ids are unique,
  \<open>fetchAllChildThreads\<close> returns or throws within the depth \<open>length + 1\<close> on every
  starting id, and returns when no failure is scheduled. What it returns, at whatever
  depth, is the stored threads that are transitive descendants of the starting id,
  each once, none of them listed before a thread it descends from, and so each thread
  listed before all of its own descendants.
\<close>

theorem fetchAllChildThreads_forest:
  assumes "acyclic (childRel (threads w))" and "distinct (map t_id (threads w))"
  shows "fetchAllChildThreads (Suc (length (threads w))) x w \<noteq> None \<and>
     (faults w = [] \<longrightarrow>
        (\<exists>ds. fetchAllChildThreads (Suc (length (threads w))) x w = Some (Inr ds, w))) \<and>
     (\<forall>depth ds w'. fetchAllChildThreads depth x w = Some (Inr ds, w') \<longrightarrow>
        set ds = {t \<in> set (threads w). t_id t \<in> descendantIds (threads w) x} \<and>
        distinct (map t_id ds) \<and>
        (\<forall>i j. i < j \<and> j < length ds \<longrightarrow>
           t_id (ds ! i) \<notin> descendantIds (threads w) (t_id (ds ! j))) \<and>
        (\<forall>i < length ds. \<forall>c \<in> descendantIds (threads w) (t_id (ds ! i)).
           \<exists>j. i < j \<and> j < length ds \<and> t_id (ds ! j) = c))"
proof (intro conjI allI impI ballI)
  let ?ts = "threads w"
  have bound: "card (descendantIds ?ts x) < Suc (length ?ts)"
    using card_descendantIds[of ?ts x] by simp
  from fetchAllChildThreads_terminates[OF assms(1) refl bound]
  show "fetchAllChildThreads (Suc (length ?ts)) x w \<noteq> None" .
  from descendants_terminates[OF assms(1) bound] obtain ds0 where
    "descendants (Suc (length ?ts)) ?ts x = Some ds0" by blast
  then show "\<exists>ds. fetchAllChildThreads (Suc (length ?ts)) x w = Some (Inr ds, w)" if "faults w = []"
    using fetchAllChildThreads_no_faults[OF that, of "Suc (length ?ts)" x] by simp
  fix depth ds w'
  assume "fetchAllChildThreads depth x w = Some (Inr ds, w')"
  from fetchAllChildThreads_Inr[OF this] have ds: "descendants depth ?ts x = Some ds" by blast
  show "set ds = {t \<in> set ?ts. t_id t \<in> descendantIds ?ts x}"
    by (rule descendants_docs[OF assms(2) ds])
  show "distinct (map t_id ds)" by (rule descendants_distinct[OF assms(2) ds])
  show "t_id (ds ! i) \<notin> descendantIds ?ts (t_id (ds ! j))" if "i < j \<and> j < length ds" for i j
    using descendants_pairwise[OF assms(2) ds] that by (simp add: sorted_wrt_iff_nth_less)
  show "\<exists>j. i < j \<and> j < length ds \<and> t_id (ds ! j) = c"
    if "i < length ds" "c \<in> descendantIds ?ts (t_id (ds ! i))" for i c
    using descendants_later[OF assms(2) ds that] .
qed

text \<open>
  C10 at post 1 of the forum: the traversal gives the threads 2, 4, 5, 3.
\<close>

theorem fetchAllChildThreads_forest_witness:
  "acyclic (childRel (threads forum)) \<and> distinct (map t_id (threads forum)) \<and>
   (\<exists>ds. fetchAllChildThreads 7 1 forum = Some (Inr ds, forum) \<and>
      map t_id ds = [2, 4, 5, 3] \<and>
      set ds = {t \<in> set (threads forum). t_id t \<in> descendantIds (threads forum) 1})"
proof -
  note t = fetchAllChildThreads_forest[OF forum_acyclic forum_ids, of 1]
  have nf: "faults forum = []" by (simp add: forum_def)
  have len: "Suc (length (threads forum)) = 7" by (simp add: forum_def)
  from t nf len obtain ds where run: "fetchAllChildThreads 7 1 forum = Some (Inr ds, forum)"
    by auto
  with t have s: "set ds = {t \<in> set (threads forum). t_id t \<in> descendantIds (threads forum) 1}"
    by blast
  have "map_option (\<lambda>r. map_sum (\<lambda>e. e) (map t_id) (fst r)) (fetchAllChildThreads 7 1 forum) =
          Some (Inr [2, 4, 5, 3])" by code_simp
  with run have "map t_id ds = [2, 4, 5, 3]" by simp
  with forum_acyclic forum_ids run s show ?thesis
    by - (intro conjI exI[of _ ds], assumption+)
qed

end
